theory Spec2Isabelle
  imports Complex_Main "HOL-Library.Multiset" "HOL-Library.Sublist"
begin

section \<open>Bytes and character classes\<close>

text \<open>
  Go strings and byte slices are modelled as \<open>string\<close> (a list of bytes). The regular
  expressions of the program are written over UTF-8 text; every construct they use either
  names ASCII bytes or a fixed code point, so a match is described on bytes: an ASCII byte
  never lies inside a multi-byte sequence.
\<close>

text \<open>The case folding that \<open>(?i)\<close> applies to the ASCII letters of a pattern.\<close>

definition lowerByte :: "char \<Rightarrow> char" where
  "lowerByte c =
     (case map_of (zip ''ABCDEFGHIJKLMNOPQRSTUVWXYZ'' ''abcdefghijklmnopqrstuvwxyz'') c of
        None \<Rightarrow> c
      | Some l \<Rightarrow> l)"

text \<open>The classes \<open>\s\<close>, \<open>\d\<close>, \<open>\w\<close> and \<open>.\<close> of Go's regexp syntax (all ASCII).\<close>

definition isSpace :: "char \<Rightarrow> bool" where
  "isSpace c = (c = CHR 0x09 \<or> c = CHR 0x0A \<or> c = CHR 0x0C \<or> c = CHR 0x0D \<or> c = CHR 0x20)"

definition isDigit :: "char \<Rightarrow> bool" where
  "isDigit c = (let n = (of_char c :: nat) in 48 \<le> n \<and> n \<le> 57)"

definition isWordChar :: "char \<Rightarrow> bool" where
  "isWordChar c = (let n = (of_char c :: nat) in
     (48 \<le> n \<and> n \<le> 57) \<or> (65 \<le> n \<and> n \<le> 90) \<or> (97 \<le> n \<and> n \<le> 122) \<or> n = 95)"

definition notNewline :: "char \<Rightarrow> bool" where
  "notNewline c = (c \<noteq> CHR 0x0A)"

section \<open>UTF-8 and lower case\<close>

text \<open>
  \<open>bytes.ToLower(s)\<close> is \<open>bytes.Map(unicode.ToLower, s)\<close>: the text is decoded rune by
  rune, each rune is mapped to lower case, and the runes are encoded again. A rune is an
  \<open>int\<close>. (Later versions of the library copy a text of ASCII bytes without decoding it,
  with the same result.)
\<close>

definition RuneError :: int where
  "RuneError = 0xFFFD"

definition MaxRune :: int where
  "MaxRune = 0x10FFFF"

text \<open>
  \<open>utf8.DecodeRune\<close>: the rune at the start of the text and its width in bytes. A first
  byte that starts no well-formed sequence, a continuation byte out of its range (the
  ranges exclude overlong forms, surrogates and values above \<open>MaxRune\<close>) and a sequence
  cut short all give \<open>RuneError\<close> and width 1. The masks and shifts of the source
  (\<open>p0 & 0x1F\<close>, \<open><< 6\<close>) are written with \<open>mod\<close> and \<open>*\<close>.
\<close>

fun DecodeRune :: "string \<Rightarrow> int \<times> nat" where
  "DecodeRune [] = (RuneError, 0)"
| "DecodeRune (c0 # cs) =
     (let p0 = of_char c0 in
      if p0 < 0x80 then (p0, 1)
      else if p0 < 0xC2 \<or> 0xF4 < p0 then (RuneError, 1)
      else
        (let lo = (if p0 = 0xE0 then 0xA0 else if p0 = 0xF0 then 0x90 else 0x80);
             hi = (if p0 = 0xED then 0x9F else if p0 = 0xF4 then 0x8F else 0xBF)
         in case cs of
              [] \<Rightarrow> (RuneError, 1)
            | c1 # cs1 \<Rightarrow>
                (let b1 = of_char c1 in
                 if b1 < lo \<or> hi < b1 then (RuneError, 1)
                 else if p0 < 0xE0 then (p0 mod 32 * 64 + b1 mod 64, 2)
                 else case cs1 of
                        [] \<Rightarrow> (RuneError, 1)
                      | c2 # cs2 \<Rightarrow>
                          (let b2 = of_char c2 in
                           if b2 < 0x80 \<or> 0xBF < b2 then (RuneError, 1)
                           else if p0 < 0xF0
                           then (p0 mod 16 * 4096 + b1 mod 64 * 64 + b2 mod 64, 3)
                           else case cs2 of
                                  [] \<Rightarrow> (RuneError, 1)
                                | c3 # cs3 \<Rightarrow>
                                    (let b3 = of_char c3 in
                                     if b3 < 0x80 \<or> 0xBF < b3 then (RuneError, 1)
                                     else (p0 mod 8 * 262144 + b1 mod 64 * 4096
                                             + b2 mod 64 * 64 + b3 mod 64, 4))))))"

text \<open>
  \<open>utf8.AppendRune(nil, r)\<close>: a rune that is no Unicode scalar value is encoded as
  \<open>RuneError\<close>.
\<close>

definition EncodeRune :: "int \<Rightarrow> string" where
  "EncodeRune r =
     (if 0 \<le> r \<and> r < 0x80 then [char_of r]
      else if 0 \<le> r \<and> r < 0x800 then [char_of (0xC0 + r div 64), char_of (0x80 + r mod 64)]
      else if r < 0 \<or> MaxRune < r \<or> (0xD800 \<le> r \<and> r \<le> 0xDFFF)
      then [CHR 0xEF, CHR 0xBF, CHR 0xBD]
      else if r < 0x10000
      then [char_of (0xE0 + r div 4096), char_of (0x80 + r div 64 mod 64), char_of (0x80 + r mod 64)]
      else [char_of (0xF0 + r div 262144), char_of (0x80 + r div 4096 mod 64),
            char_of (0x80 + r div 64 mod 64), char_of (0x80 + r mod 64)])"

text \<open>\<open>bytes.Map\<close>: a rune that the mapping makes negative is dropped.\<close>

function Map :: "(int \<Rightarrow> int) \<Rightarrow> string \<Rightarrow> string" where
  "Map mapping [] = []"
| "Map mapping (c # cs) =
     (case DecodeRune (c # cs) of
        (r, wid) \<Rightarrow>
          (if 0 \<le> mapping r then EncodeRune (mapping r) else []) @ Map mapping (drop (wid - 1) cs))"
  by pat_completeness auto
termination
  by (relation "measure (\<lambda>(f, s). length s)") auto

text \<open>
  \<open>unicode.CaseRanges\<close>, as far as \<open>unicode.ToLower\<close> reads it: the ranges \<open>(Lo, Hi)\<close> of
  code points that have a lower-case mapping, in ascending order, each with its
  \<open>Delta[LowerCase]\<close>. In a range whose delta is \<open>UpperLower\<close> upper-case and lower-case
  letters alternate, the first one being upper case. The ranges cover the 1433 code
  points that have a simple lower-case mapping in Unicode 15.0.0.
\<close>

definition UpperLower :: int where
  "UpperLower = MaxRune + 1"

definition caseRanges :: "(int \<times> int \<times> int) list" where
  "caseRanges =
     [(0x0041, 0x005A, 32), (0x00C0, 0x00D6, 32), (0x00D8, 0x00DE, 32),
      (0x0100, 0x012F, UpperLower), (0x0130, 0x0130, - 199), (0x0132, 0x0137, UpperLower),
      (0x0139, 0x0148, UpperLower), (0x014A, 0x0177, UpperLower), (0x0178, 0x0178, - 121),
      (0x0179, 0x017E, UpperLower), (0x0181, 0x0181, 210), (0x0182, 0x0185, UpperLower),
      (0x0186, 0x0186, 206), (0x0187, 0x0187, 1), (0x0189, 0x018A, 205), (0x018B, 0x018B, 1),
      (0x018E, 0x018E, 79), (0x018F, 0x018F, 202), (0x0190, 0x0190, 203), (0x0191, 0x0191, 1),
      (0x0193, 0x0193, 205), (0x0194, 0x0194, 207), (0x0196, 0x0196, 211), (0x0197, 0x0197, 209),
      (0x0198, 0x0198, 1), (0x019C, 0x019C, 211), (0x019D, 0x019D, 213), (0x019F, 0x019F, 214),
      (0x01A0, 0x01A5, UpperLower), (0x01A6, 0x01A6, 218), (0x01A7, 0x01A7, 1),
      (0x01A9, 0x01A9, 218), (0x01AC, 0x01AC, 1), (0x01AE, 0x01AE, 218), (0x01AF, 0x01AF, 1),
      (0x01B1, 0x01B2, 217), (0x01B3, 0x01B6, UpperLower), (0x01B7, 0x01B7, 219),
      (0x01B8, 0x01B8, 1), (0x01BC, 0x01BC, 1), (0x01C4, 0x01C4, 2), (0x01C5, 0x01C5, 1),
      (0x01C7, 0x01C7, 2), (0x01C8, 0x01C8, 1), (0x01CA, 0x01CA, 2), (0x01CB, 0x01CB, 1),
      (0x01CD, 0x01DC, UpperLower), (0x01DE, 0x01EF, UpperLower), (0x01F1, 0x01F1, 2),
      (0x01F2, 0x01F2, 1), (0x01F4, 0x01F4, 1), (0x01F6, 0x01F6, - 97), (0x01F7, 0x01F7, - 56),
      (0x01F8, 0x021F, UpperLower), (0x0220, 0x0220, - 130), (0x0222, 0x0233, UpperLower),
      (0x023A, 0x023A, 10795), (0x023B, 0x023B, 1), (0x023D, 0x023D, - 163),
      (0x023E, 0x023E, 10792), (0x0241, 0x0241, 1), (0x0243, 0x0243, - 195),
      (0x0244, 0x0244, 69), (0x0245, 0x0245, 71), (0x0246, 0x024F, UpperLower),
      (0x0370, 0x0373, UpperLower), (0x0376, 0x0376, 1), (0x037F, 0x037F, 116),
      (0x0386, 0x0386, 38), (0x0388, 0x038A, 37), (0x038C, 0x038C, 64), (0x038E, 0x038F, 63),
      (0x0391, 0x03A1, 32), (0x03A3, 0x03AB, 32), (0x03CF, 0x03CF, 8),
      (0x03D8, 0x03EF, UpperLower), (0x03F4, 0x03F4, - 60), (0x03F7, 0x03F7, 1),
      (0x03F9, 0x03F9, - 7), (0x03FA, 0x03FA, 1), (0x03FD, 0x03FF, - 130), (0x0400, 0x040F, 80),
      (0x0410, 0x042F, 32), (0x0460, 0x0481, UpperLower), (0x048A, 0x04BF, UpperLower),
      (0x04C0, 0x04C0, 15), (0x04C1, 0x04CE, UpperLower), (0x04D0, 0x052F, UpperLower),
      (0x0531, 0x0556, 48), (0x10A0, 0x10C5, 7264), (0x10C7, 0x10C7, 7264),
      (0x10CD, 0x10CD, 7264), (0x13A0, 0x13EF, 38864), (0x13F0, 0x13F5, 8),
      (0x1C90, 0x1CBA, - 3008), (0x1CBD, 0x1CBF, - 3008), (0x1E00, 0x1E95, UpperLower),
      (0x1E9E, 0x1E9E, - 7615), (0x1EA0, 0x1EFF, UpperLower), (0x1F08, 0x1F0F, - 8),
      (0x1F18, 0x1F1D, - 8), (0x1F28, 0x1F2F, - 8), (0x1F38, 0x1F3F, - 8), (0x1F48, 0x1F4D, - 8),
      (0x1F59, 0x1F59, - 8), (0x1F5B, 0x1F5B, - 8), (0x1F5D, 0x1F5D, - 8), (0x1F5F, 0x1F5F, - 8),
      (0x1F68, 0x1F6F, - 8), (0x1F88, 0x1F8F, - 8), (0x1F98, 0x1F9F, - 8), (0x1FA8, 0x1FAF, - 8),
      (0x1FB8, 0x1FB9, - 8), (0x1FBA, 0x1FBB, - 74), (0x1FBC, 0x1FBC, - 9),
      (0x1FC8, 0x1FCB, - 86), (0x1FCC, 0x1FCC, - 9), (0x1FD8, 0x1FD9, - 8),
      (0x1FDA, 0x1FDB, - 100), (0x1FE8, 0x1FE9, - 8), (0x1FEA, 0x1FEB, - 112),
      (0x1FEC, 0x1FEC, - 7), (0x1FF8, 0x1FF9, - 128), (0x1FFA, 0x1FFB, - 126),
      (0x1FFC, 0x1FFC, - 9), (0x2126, 0x2126, - 7517), (0x212A, 0x212A, - 8383),
      (0x212B, 0x212B, - 8262), (0x2132, 0x2132, 28), (0x2160, 0x216F, 16), (0x2183, 0x2183, 1),
      (0x24B6, 0x24CF, 26), (0x2C00, 0x2C2F, 48), (0x2C60, 0x2C60, 1), (0x2C62, 0x2C62, - 10743),
      (0x2C63, 0x2C63, - 3814), (0x2C64, 0x2C64, - 10727), (0x2C67, 0x2C6C, UpperLower),
      (0x2C6D, 0x2C6D, - 10780), (0x2C6E, 0x2C6E, - 10749), (0x2C6F, 0x2C6F, - 10783),
      (0x2C70, 0x2C70, - 10782), (0x2C72, 0x2C72, 1), (0x2C75, 0x2C75, 1),
      (0x2C7E, 0x2C7F, - 10815), (0x2C80, 0x2CE3, UpperLower), (0x2CEB, 0x2CEE, UpperLower),
      (0x2CF2, 0x2CF2, 1), (0xA640, 0xA66D, UpperLower), (0xA680, 0xA69B, UpperLower),
      (0xA722, 0xA72F, UpperLower), (0xA732, 0xA76F, UpperLower), (0xA779, 0xA77C, UpperLower),
      (0xA77D, 0xA77D, - 35332), (0xA77E, 0xA787, UpperLower), (0xA78B, 0xA78B, 1),
      (0xA78D, 0xA78D, - 42280), (0xA790, 0xA793, UpperLower), (0xA796, 0xA7A9, UpperLower),
      (0xA7AA, 0xA7AA, - 42308), (0xA7AB, 0xA7AB, - 42319), (0xA7AC, 0xA7AC, - 42315),
      (0xA7AD, 0xA7AD, - 42305), (0xA7AE, 0xA7AE, - 42308), (0xA7B0, 0xA7B0, - 42258),
      (0xA7B1, 0xA7B1, - 42282), (0xA7B2, 0xA7B2, - 42261), (0xA7B3, 0xA7B3, 928),
      (0xA7B4, 0xA7C3, UpperLower), (0xA7C4, 0xA7C4, - 48), (0xA7C5, 0xA7C5, - 42307),
      (0xA7C6, 0xA7C6, - 35384), (0xA7C7, 0xA7CA, UpperLower), (0xA7D0, 0xA7D0, 1),
      (0xA7D6, 0xA7D9, UpperLower), (0xA7F5, 0xA7F5, 1), (0xFF21, 0xFF3A, 32),
      (0x10400, 0x10427, 40), (0x104B0, 0x104D3, 40), (0x10570, 0x1057A, 39),
      (0x1057C, 0x1058A, 39), (0x1058C, 0x10592, 39), (0x10594, 0x10595, 39),
      (0x10C80, 0x10CB2, 64), (0x118A0, 0x118BF, 32), (0x16E40, 0x16E5F, 32),
      (0x1E900, 0x1E921, 34)]"

text \<open>
  \<open>unicode.to\<close> for \<open>LowerCase\<close>. The library finds the range by binary search; the ranges
  are disjoint, so the first range that holds the rune is the only one. \<open>(r - Lo) &^ 1 | 1\<close>
  is written with \<open>div\<close> and \<open>*\<close>.
\<close>

definition inRange :: "int \<Rightarrow> int \<times> int \<times> int \<Rightarrow> bool" where
  "inRange r e = (case e of (lo, hi, delta) \<Rightarrow> lo \<le> r \<and> r \<le> hi)"

definition to :: "(int \<times> int \<times> int) list \<Rightarrow> int \<Rightarrow> int" where
  "to caseRange r =
     (case find (inRange r) caseRange of
        None \<Rightarrow> r
      | Some (lo, hi, delta) \<Rightarrow>
          if MaxRune < delta then lo + ((r - lo) div 2 * 2 + 1) else r + delta)"

text \<open>\<open>unicode.ToLower\<close> and \<open>bytes.ToLower\<close>.\<close>

definition unicode_ToLower :: "int \<Rightarrow> int" where
  "unicode_ToLower r =
     (if r \<le> 0x7F then (if 0x41 \<le> r \<and> r \<le> 0x5A then r + 32 else r)
      else to caseRanges r)"

definition ToLower :: "string \<Rightarrow> string" where
  "ToLower s = Map unicode_ToLower s"

section \<open>Regular expressions\<close>

text \<open>
  The fragment of regexp syntax the program uses. \<open>run r s\<close> lists the remainders of \<open>s\<close>
  after each way of matching \<open>r\<close> at the start of \<open>s\<close>, in the order a backtracking search
  tries them (alternatives left to right, \<open>?\<close> and \<open>*\<close> greedy). Go's regexp returns the
  match such a search finds first, so the head of the list is the match at that position.
\<close>

datatype re =
    Class "char \<Rightarrow> bool"
  | Lit string
  | LitI string
  | Cat re re
  | Alt re re
  | Opt re
  | StarC "char \<Rightarrow> bool"

fun star :: "(char \<Rightarrow> bool) \<Rightarrow> string \<Rightarrow> string list" where
  "star P [] = [[]]"
| "star P (c # cs) = (if P c then star P cs @ [c # cs] else [c # cs])"

primrec run :: "re \<Rightarrow> string \<Rightarrow> string list" where
  "run (Class P) s = (case s of [] \<Rightarrow> [] | c # cs \<Rightarrow> if P c then [cs] else [])"
| "run (Lit l) s = (if take (length l) s = l then [drop (length l) s] else [])"
| "run (LitI l) s =
     (if map lowerByte (take (length l) s) = map lowerByte l then [drop (length l) s] else [])"
| "run (Cat a b) s = concat (map (run b) (run a s))"
| "run (Alt a b) s = run a s @ run b s"
| "run (Opt a) s = run a s @ [s]"
| "run (StarC P) s = star P s"

text \<open>
  \<open>ReplaceAll(data, nil)\<close> and \<open>FindAll(data, -1)\<close>: successive leftmost matches, each search
  starting where the previous match ended. Neither pattern of the program matches the
  empty string; at a position with no (non-empty) match the byte is passed over.
\<close>

function replaceAll :: "re \<Rightarrow> string \<Rightarrow> string" where
  "replaceAll r [] = []"
| "replaceAll r (c # cs) =
     (case run r (c # cs) of
        [] \<Rightarrow> c # replaceAll r cs
      | rest # _ \<Rightarrow> if length rest \<le> length cs then replaceAll r rest else c # replaceAll r cs)"
  by pat_completeness auto
termination
  by (relation "measure (\<lambda>(r, s). length s)") auto

function findAll :: "re \<Rightarrow> string \<Rightarrow> string list" where
  "findAll r [] = []"
| "findAll r (c # cs) =
     (case run r (c # cs) of
        [] \<Rightarrow> findAll r cs
      | rest # _ \<Rightarrow>
          if length rest \<le> length cs
          then take (Suc (length cs) - length rest) (c # cs) # findAll r rest
          else findAll r cs)"
  by pat_completeness auto
termination
  by (relation "measure (\<lambda>(r, s). length s)") auto

section \<open>Lines, trimming and splitting\<close>

text \<open>The errors the modelled functions return.\<close>

datatype error = ErrTooLong | ErrReadDir | ErrNoCommonPrefix | ErrIndexOutOfRange

text \<open>
  \<open>bufio.Scanner\<close> with the default split function \<open>ScanLines\<close> and the default buffer:
  the text is cut at each newline, a final line without a newline counts when it is not
  empty, one trailing carriage return is dropped from each line, and scanning stops with
  \<open>ErrTooLong\<close> at the first line that does not fit the buffer of \<open>MaxScanTokenSize\<close> bytes
  together with its newline.
\<close>

definition MaxScanTokenSize :: int where
  "MaxScanTokenSize = 64 * 1024"

text \<open>\<open>linesFrom cur s\<close>: the lines of \<open>s\<close>, the first one continuing \<open>cur\<close>.\<close>

fun linesFrom :: "string \<Rightarrow> string \<Rightarrow> string list" where
  "linesFrom cur [] = (if cur = [] then [] else [cur])"
| "linesFrom cur (c # cs) =
     (if c = CHR 0x0A then cur # linesFrom [] cs else linesFrom (cur @ [c]) cs)"

definition rawLines :: "string \<Rightarrow> string list" where
  "rawLines s = linesFrom [] s"

definition dropCR :: "string \<Rightarrow> string" where
  "dropCR l = (if l \<noteq> [] \<and> last l = CHR 0x0D then butlast l else l)"

fun scanLines :: "string list \<Rightarrow> string list \<times> error option" where
  "scanLines [] = ([], None)"
| "scanLines (l # ls) =
     (if MaxScanTokenSize \<le> int (length l) then ([], Some ErrTooLong)
      else case scanLines ls of (ts, e) \<Rightarrow> (dropCR l # ts, e))"

text \<open>
  \<open>strings.TrimSpace\<close> removes the leading and trailing white space of Unicode: the ASCII
  bytes tab, newline, vertical tab, form feed, carriage return and space, and the UTF-8
  encodings of U+0085, U+00A0, U+1680, U+2000 to U+200A, U+2028, U+2029, U+202F, U+205F and
  U+3000.
\<close>

definition spaceRunes :: "string list" where
  "spaceRunes =
     [[CHR 0x09], [CHR 0x0A], [CHR 0x0B], [CHR 0x0C], [CHR 0x0D], [CHR 0x20],
      [CHR 0xC2, CHR 0x85], [CHR 0xC2, CHR 0xA0], [CHR 0xE1, CHR 0x9A, CHR 0x80],
      [CHR 0xE2, CHR 0x80, CHR 0x80], [CHR 0xE2, CHR 0x80, CHR 0x81],
      [CHR 0xE2, CHR 0x80, CHR 0x82], [CHR 0xE2, CHR 0x80, CHR 0x83],
      [CHR 0xE2, CHR 0x80, CHR 0x84], [CHR 0xE2, CHR 0x80, CHR 0x85],
      [CHR 0xE2, CHR 0x80, CHR 0x86], [CHR 0xE2, CHR 0x80, CHR 0x87],
      [CHR 0xE2, CHR 0x80, CHR 0x88], [CHR 0xE2, CHR 0x80, CHR 0x89],
      [CHR 0xE2, CHR 0x80, CHR 0x8A], [CHR 0xE2, CHR 0x80, CHR 0xA8],
      [CHR 0xE2, CHR 0x80, CHR 0xA9], [CHR 0xE2, CHR 0x80, CHR 0xAF],
      [CHR 0xE2, CHR 0x81, CHR 0x9F], [CHR 0xE3, CHR 0x80, CHR 0x80]]"

text \<open>The length of the white-space rune at the start of \<open>s\<close>; 0 when there is none.\<close>

definition leadingSpace :: "string list \<Rightarrow> string \<Rightarrow> nat" where
  "leadingSpace runes s =
     (case filter (\<lambda>r. take (length r) s = r) runes of [] \<Rightarrow> 0 | r # _ \<Rightarrow> length r)"

fun trimLeft :: "string list \<Rightarrow> string \<Rightarrow> string" where
  "trimLeft runes [] = []"
| "trimLeft runes (c # cs) =
     (case leadingSpace runes (c # cs) of
        0 \<Rightarrow> c # cs
      | Suc k \<Rightarrow> trimLeft runes (drop k cs))"

definition TrimSpace :: "string \<Rightarrow> string" where
  "TrimSpace s = rev (trimLeft (map rev spaceRunes) (rev (trimLeft spaceRunes s)))"

definition HasPrefix :: "string \<Rightarrow> string \<Rightarrow> bool" where
  "HasPrefix s p = (take (length p) s = p)"

text \<open>\<open>strings.Split(s, "/")\<close> and \<open>strings.Join(parts, "/")\<close>.\<close>

fun splitFrom :: "string \<Rightarrow> string \<Rightarrow> string list" where
  "splitFrom cur [] = [cur]"
| "splitFrom cur (c # cs) =
     (if c = CHR ''/'' then cur # splitFrom [] cs else splitFrom (cur @ [c]) cs)"

definition Split :: "string \<Rightarrow> string list" where
  "Split s = splitFrom [] s"

fun Join :: "string list \<Rightarrow> string" where
  "Join [] = []"
| "Join [x] = x"
| "Join (x # y # ys) = x @ ''/'' @ Join (y # ys)"

section \<open>Paths\<close>

text \<open>
  \<open>filepath.Clean\<close>, \<open>filepath.Dir\<close> and \<open>filepath.Join\<close> of the Go library on a system whose
  separator is \<open>/\<close> and whose paths have no volume name. \<open>Clean\<close> processes the elements
  between separators from left to right: an empty element and \<open>.\<close> are dropped, \<open>..\<close>
  removes the element before it when there is one that is not itself \<open>..\<close>, is dropped at
  the root, and is kept otherwise. The stack of kept elements has its last element first.
\<close>

definition cleanStep :: "bool \<Rightarrow> string list \<Rightarrow> string \<Rightarrow> string list" where
  "cleanStep rooted stack part =
     (if part = [] \<or> part = ''.'' then stack
      else if part = ''..'' then
        (case stack of
           [] \<Rightarrow> if rooted then [] else [''..'']
         | e # below \<Rightarrow> if e = ''..'' then (if rooted then stack else ''..'' # stack) else below)
      else part # stack)"

definition filepath_Clean :: "string \<Rightarrow> string" where
  "filepath_Clean path =
     (if path = [] then ''.''
      else let rooted = (hd path = CHR ''/'');
               out = (if rooted then ''/'' else []) @ Join (rev (foldl (cleanStep rooted) [] (Split path)))
           in if out = [] then ''.'' else out)"

text \<open>The part of a path up to and including its last separator.\<close>

definition dirPart :: "string \<Rightarrow> string" where
  "dirPart path = rev (dropWhile (\<lambda>c. c \<noteq> CHR ''/'') (rev path))"

definition filepath_Dir :: "string \<Rightarrow> string" where
  "filepath_Dir path = filepath_Clean (dirPart path)"

definition filepath_Join :: "string list \<Rightarrow> string" where
  "filepath_Join elem =
     (case dropWhile (\<lambda>e. e = []) elem of [] \<Rightarrow> [] | es \<Rightarrow> filepath_Clean (Join es))"

section \<open>Cleaning and tokenizing license text\<close>

text \<open>
  \<^verbatim>\<open>reWords = regexp.MustCompile(`[\w']+`)\<close> and
  \<^verbatim>\<open>reCopyright = regexp.MustCompile(`(?i)\s*Copyright (?:<U+00A9>|\(c\)|\xC2\xA9)?\s*(?:\d{4}|\[year\]).*`)\<close>
  where \<open><U+00A9>\<close> stands for the copyright sign itself (bytes C2 A9), and
  \<open>\xC2\xA9\<close> names the two code points U+00C2 U+00A9 (bytes C3 82 C2 A9; under \<open>(?i)\<close> also
  U+00E2, bytes C3 A2).
\<close>

definition wordByte :: "char \<Rightarrow> bool" where
  "wordByte c = (isWordChar c \<or> c = CHR 0x27)"

definition reWords :: re where
  "reWords = Cat (Class wordByte) (StarC wordByte)"

text \<open>
  The pattern in parts: the sign \<open>(?:<U+00A9>|\(c\)|\xC2\xA9)\<close>, the year
  \<open>(?:\d{4}|\[year\])\<close>, and the pattern after its leading \<open>\s*\<close>.
\<close>

definition reSign :: re where
  "reSign =
     Alt (Lit [CHR 0xC2, CHR 0xA9])
    (Alt (LitI ''(c)'')
    (Alt (Lit [CHR 0xC3, CHR 0x82, CHR 0xC2, CHR 0xA9])
         (Lit [CHR 0xC3, CHR 0xA2, CHR 0xC2, CHR 0xA9])))"

definition reYear :: re where
  "reYear =
     Alt (Cat (Class isDigit) (Cat (Class isDigit) (Cat (Class isDigit) (Class isDigit))))
         (LitI ''[year]'')"

definition reNotice :: re where
  "reNotice =
     Cat (LitI ''copyright '')
    (Cat (Opt reSign)
    (Cat (StarC isSpace)
    (Cat reYear (StarC notNewline))))"

definition reCopyright :: re where
  "reCopyright = Cat (StarC isSpace) reNotice"

definition stripCopyright :: "string \<Rightarrow> string" where
  "stripCopyright data = replaceAll reCopyright data"

definition cleanLicenseData :: "string \<Rightarrow> string" where
  "cleanLicenseData data = stripCopyright (ToLower data)"

text \<open>
  A Go map has no iteration order. \<open>map[string]int\<close> is modelled as an association list
  with distinct keys, the order of the list standing for one order in which \<open>range\<close> may
  visit the entries; \<open>len\<close> is the length and a lookup is \<open>map_of\<close>.
\<close>

type_synonym wordset = "(string \<times> int) list"

fun wordLoop :: "(nat \<times> string) list \<Rightarrow> wordset \<Rightarrow> wordset" where
  "wordLoop [] words = words"
| "wordLoop ((i, s) # ms) words =
     (if map_of words s = None then wordLoop ms (words @ [(s, int i)]) else wordLoop ms words)"

definition makeWordSet :: "string \<Rightarrow> wordset" where
  "makeWordSet data = wordLoop (enumerate 0 (findAll reWords (cleanLicenseData data))) []"

section \<open>parseTemplate\<close>

record Template =
  Title :: string
  Nickname :: string
  Words :: wordset

text \<open>The loop state: \<open>state\<close>, \<open>t.Title\<close>, \<open>t.Nickname\<close> and \<open>text\<close>.\<close>

type_synonym parseState = "nat \<times> string \<times> string \<times> string"

fun parseLine :: "string \<Rightarrow> parseState \<Rightarrow> parseState" where
  "parseLine token (state, title, nickname, text) =
     (let line = TrimSpace token in
      if state = 0 then (if line = ''---'' then (1, title, nickname, text)
                         else (state, title, nickname, text))
      else if state = 1 then
        (if line = ''---'' then (2, title, nickname, text)
         else if HasPrefix line ''title:''
              then (state, TrimSpace (drop (length ''title:'') line), nickname, text)
         else if HasPrefix line ''nickname:''
              then (state, title, TrimSpace (drop (length ''nickname:'') line), text)
         else (state, title, nickname, text))
      else if state = 2 then (state, title, nickname, text @ token @ [CHR 0x0A])
      else (state, title, nickname, text))"

definition parseTemplate :: "string \<Rightarrow> Template \<times> error option" where
  "parseTemplate content =
     (case scanLines (rawLines content) of
        (tokens, err) \<Rightarrow>
          (case foldl (\<lambda>st token. parseLine token st) (0, [], [], []) tokens of
             (state, title, nickname, text) \<Rightarrow>
               (\<lparr>Title = title, Nickname = nickname, Words = makeWordSet text\<rparr>, err)))"

section \<open>matchTemplates\<close>

record Word =
  Text :: string
  Pos :: int

text \<open>
  \<open>float64\<close>. The only floating-point values the program computes are the constants
  \<open>-1\<close> and \<open>0\<close> and quotients of two counts, compared with \<open>>\<close>. A finite value is
  modelled by the exact quotient (IEEE division rounds monotonically, and two distinct
  quotients of counts below \<open>2^25\<close> round to distinct doubles, so \<open>>\<close> on the
  doubles is \<open>>\<close> on the quotients), and the values \<open>0/0\<close> and \<open>x/0\<close> by \<open>NaN\<close> and
  \<open>PosInf\<close>. Every comparison with \<open>NaN\<close> is false.
\<close>

datatype float64 = Fin rat | PosInf | NaN

fun fgt :: "float64 \<Rightarrow> float64 \<Rightarrow> bool" where
  "fgt (Fin a) (Fin b) = (b < a)"
| "fgt PosInf (Fin b) = True"
| "fgt _ _ = False"

text \<open>\<^verbatim>\<open>2 * float64(common) / (float64(len(words)) + float64(len(t.Words)))\<close>\<close>

definition scoreOf :: "nat \<Rightarrow> nat \<Rightarrow> nat \<Rightarrow> float64" where
  "scoreOf common n m =
     (if n + m \<noteq> 0 then Fin (2 * of_nat common / (of_nat n + of_nat m))
      else if common = 0 then NaN else PosInf)"

record License =
  Package :: string
  Score :: float64
  Template :: "Template option"
  Path :: string
  Err :: string
  ExtraWords :: "string list"
  MissingWords :: "string list"

record MatchResult =
  Template :: "Template option"
  Score :: float64
  ExtraWords :: "string list"
  MissingWords :: "string list"

text \<open>
  \<open>sort.Sort(sortedWords(words))\<close> orders the words by \<open>Pos\<close>. The library's sort is not
  stable; the model sorts stably, which is the same list whenever the positions are
  distinct (lemma \<open>sorted_by_Pos_unique\<close> below).
\<close>

definition sortAndReturnWords :: "Word list \<Rightarrow> string list" where
  "sortAndReturnWords ws = map Text (sort_key Pos ws)"

text \<open>The loop over the candidate's words: it counts the common words and collects the extra ones.\<close>

fun extraLoop :: "wordset \<Rightarrow> wordset \<Rightarrow> nat \<times> Word list \<Rightarrow> nat \<times> Word list" where
  "extraLoop tw [] acc = acc"
| "extraLoop tw ((w, pos) # ws) (common, extra) =
     (if map_of tw w \<noteq> None then extraLoop tw ws (common + 1, extra)
      else extraLoop tw ws (common, extra @ [\<lparr>Text = w, Pos = pos\<rparr>]))"

text \<open>The loop over the template's words: it collects the words missing from the candidate.\<close>

fun missingLoop :: "wordset \<Rightarrow> wordset \<Rightarrow> Word list \<Rightarrow> Word list" where
  "missingLoop words [] missing = missing"
| "missingLoop words ((w, pos) # tw) missing =
     (if map_of words w = None then missingLoop words tw (missing @ [\<lparr>Text = w, Pos = pos\<rparr>])
      else missingLoop words tw missing)"

type_synonym best = "float64 \<times> Template option \<times> Word list \<times> Word list"

fun matchLoop :: "wordset \<Rightarrow> Template list \<Rightarrow> best \<Rightarrow> best" where
  "matchLoop words [] b = b"
| "matchLoop words (t # ts) (bestScore, bestTemplate, bestExtra, bestMissing) =
     (let (common, extra) = extraLoop (Words t) words (0, []);
          missing = missingLoop words (Words t) [];
          score = scoreOf common (length words) (length (Words t))
      in if fgt score bestScore then matchLoop words ts (score, Some t, extra, missing)
         else matchLoop words ts (bestScore, bestTemplate, bestExtra, bestMissing))"

text \<open>The body of \<open>matchTemplates\<close> after \<open>words := makeWordSet(license)\<close>.\<close>

definition matchWords :: "wordset \<Rightarrow> Template list \<Rightarrow> MatchResult" where
  "matchWords words templates =
     (let (bestScore, bestTemplate, bestExtra, bestMissing) =
            matchLoop words templates (Fin (- 1), None, [], [])
      in \<lparr>Template = bestTemplate, Score = bestScore,
          ExtraWords = sortAndReturnWords bestExtra,
          MissingWords = sortAndReturnWords bestMissing\<rparr>)"

definition matchTemplates :: "string \<Rightarrow> Template list \<Rightarrow> MatchResult" where
  "matchTemplates license templates = matchWords (makeWordSet license) templates"

section \<open>scoreLicenseName\<close>

text \<open>
  \<^verbatim>\<open>reLicense = (?i)^(?:((?:un)?licen[sc]e)|((?:un)?licen[sc]e\.(?:md|markdown|txt))|\<close>
  \<^verbatim>\<open>(copy(?:ing|right)(?:\.[^.]+)?)|(licen[sc]e(?:[-_\d\.]+)?\.[^.]+))$\<close>.
  Under \<open>(?i)\<close> Go folds case by Unicode's simple folding, in which \<open>s\<close> also matches
  U+017F (bytes C5 BF) and \<open>k\<close> also matches U+212A (bytes E2 84 AA); no other letter of
  the pattern has a partner outside ASCII.
\<close>

definition plus :: "(char \<Rightarrow> bool) \<Rightarrow> re" where
  "plus P = Cat (Class P) (StarC P)"

definition foldK :: re where
  "foldK = Alt (Class (\<lambda>b. b = CHR ''k'' \<or> b = CHR ''K'')) (Lit [CHR 0xE2, CHR 0x84, CHR 0xAA])"

definition foldSC :: re where
  "foldSC = Alt (Class (\<lambda>b. b = CHR ''s'' \<or> b = CHR ''S'' \<or> b = CHR ''c'' \<or> b = CHR ''C''))
                (Lit [CHR 0xC5, CHR 0xBF])"

definition notDot :: "char \<Rightarrow> bool" where
  "notDot c = (c \<noteq> CHR ''.'')"

definition versionByte :: "char \<Rightarrow> bool" where
  "versionByte c = (c = CHR ''-'' \<or> c = CHR ''_'' \<or> isDigit c \<or> c = CHR ''.'')"

definition reLicence :: re where
  "reLicence = Cat (LitI ''licen'') (Cat foldSC (LitI ''e''))"

definition reUnlicence :: re where
  "reUnlicence = Cat (Opt (LitI ''un'')) reLicence"

definition reLicense1 :: re where
  "reLicense1 = reUnlicence"

definition reLicense2 :: re where
  "reLicense2 =
     Cat reUnlicence (Cat (Lit ''.'')
       (Alt (LitI ''md'') (Alt (Cat (LitI ''mar'') (Cat foldK (LitI ''down''))) (LitI ''txt''))))"

definition reLicense3 :: re where
  "reLicense3 =
     Cat (LitI ''copy'') (Cat (Alt (LitI ''ing'') (LitI ''right''))
       (Opt (Cat (Lit ''.'') (plus notDot))))"

definition reLicense4 :: re where
  "reLicense4 = Cat reLicence (Cat (Opt (plus versionByte)) (Cat (Lit ''.'') (plus notDot)))"

text \<open>A match of the whole string: the pattern is anchored by \<open>^\<close> and \<open>$\<close>.\<close>

definition fullMatch :: "re \<Rightarrow> string \<Rightarrow> bool" where
  "fullMatch r s = ([] \<in> set (run r s))"

text \<open>
  The search tries the four groups in order, so group \<open>i\<close> is set exactly when no earlier
  group matches the whole name and group \<open>i\<close> does. No group matches the empty string.
\<close>

definition scoreLicenseName :: "string \<Rightarrow> float64" where
  "scoreLicenseName name =
     (if fullMatch reLicense1 name then Fin 1
      else if fullMatch reLicense2 name then Fin (9 / 10)
      else if fullMatch reLicense3 name then Fin (8 / 10)
      else if fullMatch reLicense4 name then Fin (7 / 10)
      else Fin 0)"

section \<open>findLicense\<close>

record PkgInfo =
  Name :: string
  Dir :: string
  Root :: string
  ImportPath :: string
  Error :: "string option"

text \<open>An entry of a directory listing: \<open>fi.Name()\<close> and \<open>fi.Mode().IsRegular()\<close>.\<close>

record FileInfo =
  Name :: string
  IsRegular :: bool

text \<open>
  The file system is a function from a directory name to what \<open>ioutil.ReadDir\<close> returns
  for it: an error or the entries of the directory.
\<close>

type_synonym filesystem = "string \<Rightarrow> error + FileInfo list"

text \<open>The loop over the entries of one directory.\<close>

fun bestLoop :: "FileInfo list \<Rightarrow> float64 \<times> string \<Rightarrow> float64 \<times> string" where
  "bestLoop [] b = b"
| "bestLoop (fi # fis) (bestScore, bestName) =
     (if \<not> IsRegular fi then bestLoop fis (bestScore, bestName)
      else let score = scoreLicenseName (Name fi)
           in if fgt score bestScore then bestLoop fis (score, Name fi)
              else bestLoop fis (bestScore, bestName))"

text \<open>
  The walk towards the root. The loop need not end (the parent of \<open>/\<close> is \<open>/\<close>), so the
  model counts the iterations it may still make: \<open>None\<close> says that \<open>n\<close> iterations were
  not enough.
\<close>

fun findLoop :: "nat \<Rightarrow> filesystem \<Rightarrow> string \<Rightarrow> string \<Rightarrow> (error + string) option" where
  "findLoop 0 fs srcRoot path = (if path = ''.'' then Some (Inr []) else None)"
| "findLoop (Suc n) fs srcRoot path =
     (if path = ''.'' then Some (Inr [])
      else case fs (filepath_Join [srcRoot, ''src'', path]) of
             Inl err \<Rightarrow> Some (Inl err)
           | Inr fis \<Rightarrow>
               (case bestLoop fis (Fin 0, []) of
                  (bestScore, bestName) \<Rightarrow>
                    if bestName \<noteq> [] then Some (Inr (filepath_Join [path, bestName]))
                    else findLoop n fs srcRoot (filepath_Dir path)))"

definition findLicense :: "nat \<Rightarrow> filesystem \<Rightarrow> PkgInfo \<Rightarrow> (error + string) option" where
  "findLicense n fs info = findLoop n fs (Root info) (ImportPath info)"

section \<open>longestCommonPrefix and groupLicenses\<close>

text \<open>
  \<open>type Node struct { Name string; Children map[string]*Node }\<close>. The children are an
  association list with distinct keys; the tree is built in place in the source and
  functionally here.
\<close>

datatype Node = Node string "(string \<times> Node) list"

fun setChild :: "string \<Rightarrow> Node \<Rightarrow> (string \<times> Node) list \<Rightarrow> (string \<times> Node) list" where
  "setChild k v [] = [(k, v)]"
| "setChild k v ((k', v') # kvs) = (if k' = k then (k, v) # kvs else (k', v') # setChild k v kvs)"

text \<open>The inner loop of the construction: it walks down from \<open>n\<close> along \<open>parts\<close>, adding nodes.\<close>

fun addPath :: "string list \<Rightarrow> Node \<Rightarrow> Node" where
  "addPath [] n = n"
| "addPath (part # parts) (Node name children) =
     (case map_of children part of
        None \<Rightarrow> Node name (setChild part (addPath parts (Node part [])) children)
      | Some c \<Rightarrow> Node name (setChild part (addPath parts c) children))"

text \<open>The walk from the root while a node has exactly one child.\<close>

fun walkSingle :: "Node \<Rightarrow> string list" where
  "walkSingle (Node name [(k, Node cname cchildren)]) = cname # walkSingle (Node cname cchildren)"
| "walkSingle (Node name children) = []"

definition longestCommonPrefix :: "License list \<Rightarrow> string" where
  "longestCommonPrefix licenses =
     Join (walkSingle (foldl (\<lambda>n l. addPath (Split (Package l)) n) (Node [] []) licenses))"

text \<open>\<open>paths[l.Path] = append(paths[l.Path], l)\<close> on a map kept in order of first insertion.\<close>

fun appendAt :: "string \<Rightarrow> License \<Rightarrow> (string \<times> License list) list \<Rightarrow> (string \<times> License list) list" where
  "appendAt k l [] = [(k, [l])]"
| "appendAt k l ((k', v) # kvs) = (if k' = k then (k, v @ [l]) # kvs else (k', v) # appendAt k l kvs)"

fun collectPaths :: "License list \<Rightarrow> (string \<times> License list) list \<Rightarrow> (string \<times> License list) list" where
  "collectPaths [] paths = paths"
| "collectPaths (l # ls) paths =
     (if Path l = [] then collectPaths ls paths else collectPaths ls (appendAt (Path l) l paths))"

text \<open>
  The second loop replaces each group of more than one row by one row. It stops with an
  error at the first group without a common prefix; the error's text (which names that
  group) is not modelled.
\<close>

fun mergeGroups :: "(string \<times> License list) list \<Rightarrow> error + (string \<times> License list) list" where
  "mergeGroups [] = Inr []"
| "mergeGroups ((k, v) # kvs) =
     (if length v \<le> 1
      then (case mergeGroups kvs of Inl e \<Rightarrow> Inl e | Inr r \<Rightarrow> Inr ((k, v) # r))
      else let prefix = longestCommonPrefix v
           in if prefix = [] then Inl ErrNoCommonPrefix
              else (case v of
                      [] \<Rightarrow> Inl ErrIndexOutOfRange
                    | l # _ \<Rightarrow>
                        (case mergeGroups kvs of
                           Inl e \<Rightarrow> Inl e
                         | Inr r \<Rightarrow> Inr ((k, [l\<lparr>Package := prefix\<rparr>]) # r))))"

text \<open>
  The third loop keeps the rows without a path and the first row of each group, once.
  \<open>v[0]\<close> on an empty group would panic; no group is ever empty.
\<close>

fun keepLoop ::
  "License list \<Rightarrow> (string \<times> License list) list \<Rightarrow> License list \<Rightarrow> error + License list" where
  "keepLoop [] paths kept = Inr kept"
| "keepLoop (l # ls) paths kept =
     (if Path l = [] then keepLoop ls paths (kept @ [l])
      else case map_of paths (Path l) of
             None \<Rightarrow> keepLoop ls paths kept
           | Some [] \<Rightarrow> Inl ErrIndexOutOfRange
           | Some (l0 # _) \<Rightarrow>
               keepLoop ls (filter (\<lambda>kv. fst kv \<noteq> Path l) paths) (kept @ [l0]))"

definition groupLicenses :: "License list \<Rightarrow> error + License list" where
  "groupLicenses licenses =
     (case mergeGroups (collectPaths licenses []) of
        Inl e \<Rightarrow> Inl e
      | Inr paths \<Rightarrow> keepLoop licenses paths [])"

section \<open>Vocabulary of the statements\<close>

text \<open>The values of the loop variables of \<open>matchTemplates\<close> for one template, and the
  predicates the statements below are written with.\<close>

definition mkWord :: "string \<times> int \<Rightarrow> Word" where
  "mkWord e = \<lparr>Text = fst e, Pos = snd e\<rparr>"

definition keys :: "wordset \<Rightarrow> string set" where
  "keys ws = fst ` set ws"

definition common :: "wordset \<Rightarrow> Template \<Rightarrow> nat" where
  "common words t = fst (extraLoop (Words t) words (0, []))"

definition extra :: "wordset \<Rightarrow> Template \<Rightarrow> Word list" where
  "extra words t = snd (extraLoop (Words t) words (0, []))"

definition missing :: "wordset \<Rightarrow> Template \<Rightarrow> Word list" where
  "missing words t = missingLoop words (Words t) []"

definition score :: "wordset \<Rightarrow> Template \<Rightarrow> float64" where
  "score words t = scoreOf (common words t) (length words) (length (Words t))"

definition dice :: "wordset \<Rightarrow> Template \<Rightarrow> rat" where
  "dice words t = 2 * of_nat (common words t) / (of_nat (length words) + of_nat (length (Words t)))"

text \<open>A map has each key once: the invariant of the association lists that stand for maps.\<close>

definition validTemplates :: "Template list \<Rightarrow> bool" where
  "validTemplates templates = list_all (\<lambda>t. distinct (map fst (Words t))) templates"

definition validPositions :: "Template list \<Rightarrow> bool" where
  "validPositions templates = list_all (\<lambda>t. distinct (map snd (Words t))) templates"

text \<open>
  Two association lists stand for the same Go map when one is a permutation of the other.
\<close>

definition sameTemplate :: "Template \<Rightarrow> Template \<Rightarrow> bool" where
  "sameTemplate t t' =
     (Title t' = Title t \<and> Nickname t' = Nickname t \<and> mset (Words t') = mset (Words t))"

fun sameBest :: "best \<Rightarrow> best \<Rightarrow> bool" where
  "sameBest (s, t, e, m) (s', t', e', m') =
     (s' = s \<and> rel_option sameTemplate t t' \<and> mset e' = mset e \<and> mset m' = mset m)"

definition ciPrefix :: "string \<Rightarrow> bool" where
  "ciPrefix s = (run (LitI ''copyright '') s \<noteq> [])"

text \<open>
  Parts of the notice pattern: \<open>copyright \<close> with an optional sign, \<open>copyright \<close> with a
  sign, and optional white space before a year.
\<close>

definition reHead :: re where
  "reHead = Cat (LitI ''copyright '') (Opt reSign)"

definition reSigned :: re where
  "reSigned = Cat (LitI ''copyright '') reSign"

definition reDated :: re where
  "reDated = Cat (StarC isSpace) reYear"

text \<open>\<open>hasNotice s\<close>: a notice that the pattern matches starts somewhere in \<open>s\<close>.\<close>

fun hasNotice :: "string \<Rightarrow> bool" where
  "hasNotice [] = False"
| "hasNotice (c # cs) = (run reNotice (c # cs) \<noteq> [] \<or> hasNotice cs)"

text \<open>
  \<open>skipNotices t\<close>: what is left of \<open>t\<close> after the matches that the strip deletes one
  directly after the other, from the start of \<open>t\<close> on. A match is shorter than the text
  it is found in, so \<open>length t\<close> steps are enough.
\<close>

fun skipFuel :: "nat \<Rightarrow> string \<Rightarrow> string" where
  "skipFuel 0 t = t"
| "skipFuel (Suc n) t = (case run reCopyright t of [] \<Rightarrow> t | rest # _ \<Rightarrow> skipFuel n rest)"

definition skipNotices :: "string \<Rightarrow> string" where
  "skipNotices t = skipFuel (length t) t"

text \<open>
  \<open>dangling t\<close>: \<open>t\<close> starts with \<open>copyright \<close> and a sign, directly followed by one or
  more notices that the strip deletes, and what follows them starts with white space
  and a year. \<open>noDangling s\<close>: this is so nowhere in \<open>s\<close>.
\<close>

definition dangling :: "string \<Rightarrow> bool" where
  "dangling t =
     list_ex (\<lambda>u. run reCopyright u \<noteq> [] \<and> run reDated (skipNotices u) \<noteq> []) (run reSigned t)"

fun noDangling :: "string \<Rightarrow> bool" where
  "noDangling [] = True"
| "noDangling (c # cs) = (\<not> dangling (c # cs) \<and> noDangling cs)"

text \<open>\<open>nlFree r\<close>: no match of the pattern \<open>r\<close> holds a newline.\<close>

fun nlFree :: "re \<Rightarrow> bool" where
  "nlFree (Class P) = (\<not> P (CHR 0x0A))"
| "nlFree (Lit l) = (CHR 0x0A \<notin> set l)"
| "nlFree (LitI l) = (CHR 0x0A \<notin> set l)"
| "nlFree (Cat a b) = (nlFree a \<and> nlFree b)"
| "nlFree (Alt a b) = (nlFree a \<and> nlFree b)"
| "nlFree (Opt a) = nlFree a"
| "nlFree (StarC P) = (\<not> P (CHR 0x0A))"

text \<open>The Unicode scalar values: the code points that are no surrogates.\<close>

definition validRune :: "int \<Rightarrow> bool" where
  "validRune r = (0 \<le> r \<and> r \<le> MaxRune \<and> \<not> (0xD800 \<le> r \<and> r \<le> 0xDFFF))"

text \<open>
  Properties of a table of case ranges. \<open>checkImage T lo hi\<close>: the code points from \<open>lo\<close> to
  \<open>hi\<close> are scalar values, none is an ASCII capital and none lies in a range of \<open>T\<close>.
  \<open>checkRange T e\<close>: the lower-case letters of the range \<open>e\<close> are scalar values that the
  table leaves as they are. \<open>ascending T\<close>: the ranges are in ascending order and disjoint.
\<close>

definition checkImage :: "(int \<times> int \<times> int) list \<Rightarrow> int \<Rightarrow> int \<Rightarrow> bool" where
  "checkImage T lo hi =
     (0 \<le> lo \<and> hi \<le> MaxRune \<and> (hi < 0xD800 \<or> 0xDFFF < lo) \<and> (hi < 0x41 \<or> 0x5A < lo)
      \<and> list_all (\<lambda>(lo2, hi2, d2). hi < lo2 \<or> hi2 < lo) T)"

definition checkRange :: "(int \<times> int \<times> int) list \<Rightarrow> int \<times> int \<times> int \<Rightarrow> bool" where
  "checkRange T e =
     (case e of (lo, hi, delta) \<Rightarrow>
        if MaxRune < delta
        then 0x7F < lo \<and> hi \<le> MaxRune \<and> (hi < 0xD800 \<or> 0xDFFF < lo) \<and> (hi - lo) mod 2 = 1
        else checkImage T (lo + delta) (hi + delta))"

fun ascending :: "(int \<times> int \<times> int) list \<Rightarrow> bool" where
  "ascending [] = True"
| "ascending [e] = True"
| "ascending ((lo1, hi1, d1) # (lo2, hi2, d2) # es) =
     (lo1 \<le> hi1 \<and> hi1 < lo2 \<and> ascending ((lo2, hi2, d2) # es))"

text \<open>
  \<open>encoded rs\<close>: the UTF-8 encoding of the runes \<open>rs\<close>. \<open>lowered rs\<close>: they are scalar values
  that \<open>unicode.ToLower\<close> leaves as they are.
\<close>

definition encoded :: "int list \<Rightarrow> string" where
  "encoded rs = concat (map EncodeRune rs)"

definition lowered :: "int list \<Rightarrow> bool" where
  "lowered rs = list_all (\<lambda>r. validRune r \<and> unicode_ToLower r = r) rs"

definition lineEnd :: "string \<Rightarrow> bool" where
  "lineEnd s = (s = [] \<or> hd s = CHR 0x0A)"

definition relative :: "string \<Rightarrow> bool" where
  "relative p = (p \<noteq> [] \<and> hd p \<noteq> CHR ''/'')"

definition slashes :: "string \<Rightarrow> nat" where
  "slashes p = length (filter (\<lambda>c. c = CHR ''/'') p)"

definition goodElems :: "string list \<Rightarrow> bool" where
  "goodElems xs = (\<forall>x \<in> set xs. x \<noteq> [] \<and> CHR ''/'' \<notin> set x)"

text \<open>\<open>hasCandidate fis\<close>: the listing has a regular file whose name scores above 0.\<close>

definition hasCandidate :: "FileInfo list \<Rightarrow> bool" where
  "hasCandidate fis = (\<exists>fi \<in> set fis. IsRegular fi \<and> fgt (scoreLicenseName (Name fi)) (Fin 0))"

text \<open>The directory \<open>findLicense\<close> reads in iteration \<open>i\<close>: the \<open>i\<close>-th ancestor of the import path.\<close>

definition ancestor :: "PkgInfo \<Rightarrow> nat \<Rightarrow> string" where
  "ancestor info i = (filepath_Dir ^^ i) (ImportPath info)"

definition listing :: "filesystem \<Rightarrow> PkgInfo \<Rightarrow> nat \<Rightarrow> error + FileInfo list" where
  "listing fs info i = fs (filepath_Join [Root info, ''src'', ancestor info i])"

section \<open>Example inputs\<close>

definition exampleTemplates :: "Template list" where
  "exampleTemplates =
     [\<lparr>Title = ''No License'', Nickname = '''', Words = []\<rparr>,
      \<lparr>Title = ''One'', Nickname = '''', Words = [(''to'', 0), (''use'', 1), (''freely'', 2)]\<rparr>,
      \<lparr>Title = ''Two'', Nickname = ''2'', Words = [(''free'', 0), (''to'', 1), (''use'', 2)]\<rparr>,
      \<lparr>Title = ''Three'', Nickname = '''', Words = [(''use'', 0), (''to'', 1), (''free'', 2)]\<rparr>]"

definition templateTwo :: Template where
  "templateTwo = \<lparr>Title = ''Two'', Nickname = ''2'', Words = [(''free'', 0), (''to'', 1), (''use'', 2)]\<rparr>"

definition exampleTemplates' :: "Template list" where
  "exampleTemplates' = map (\<lambda>t. t\<lparr>Words := rev (Words t)\<rparr>) exampleTemplates"

text \<open>The input and the expected output of the repository's \<open>TestCleanLicenseData\<close>.\<close>

definition testData :: string where
  "testData = ''The MIT License (MIT)\<newline>\<newline>'' @ [CHR 0x09] @ ''Copyright (c) 2013 Ben Johnson\<newline>''
     @ [CHR 0x09] @ ''\<newline>'' @ [CHR 0x09] @ ''Some other lines.\<newline>'' @ [CHR 0x09]
     @ ''And more.\<newline>'' @ [CHR 0x09]"

definition testWanted :: string where
  "testWanted = ''the mit license (mit)\<newline>'' @ [CHR 0x09] @ ''\<newline>'' @ [CHR 0x09]
     @ ''some other lines.\<newline>'' @ [CHR 0x09] @ ''and more.\<newline>'' @ [CHR 0x09]"

definition danglingNotice :: string where
  "danglingNotice = ''Copyright (c)\<newline>Copyright 2014 Foo\<newline>2013 Bar''"

text \<open>
  A license text with a dated notice, the words \<open>copyright notice\<close>, a notice without a
  year, capitals outside ASCII, typographic quotes and a byte that is not UTF-8.
\<close>

definition noticeText :: string where
  "noticeText = ''The MIT License\<newline>Copyright '' @ [CHR 0xC2, CHR 0xA9] @ '' 2013 Ben Johnson\<newline>\<newline>''
     @ ''The above copyright notice shall be included.\<newline>Copyright (c) the authors\<newline>''
     @ [CHR 0xC3, CHR 0x89] @ ''COLE '' @ [CHR 0xE2, CHR 0x80, CHR 0x9C] @ ''AS IS''
     @ [CHR 0xE2, CHR 0x80, CHR 0x9D, CHR 0xFF]"

definition noticeWanted :: string where
  "noticeWanted = ''the mit license\<newline>\<newline>the above copyright notice shall be included.\<newline>''
     @ ''copyright (c) the authors\<newline>'' @ [CHR 0xC3, CHR 0xA9] @ ''cole ''
     @ [CHR 0xE2, CHR 0x80, CHR 0x9C] @ ''as is'' @ [CHR 0xE2, CHR 0x80, CHR 0x9D, CHR 0xEF, CHR 0xBF, CHR 0xBD]"

text \<open>A template text with a preamble, front matter and a body.\<close>

definition sampleTemplate :: string where
  "sampleTemplate = ''Preamble\<newline>---\<newline>title: Tiny License\<newline>nickname: Tiny  \<newline>x: y\<newline> --- \<newline>Free to use\<newline>Use it'' @ [CHR 0x0D, CHR 0x0A]"

definition plainText :: string where
  "plainText = ''Free to use\<newline>title: Free\<newline>-- -\<newline>''"

definition regular :: "string \<Rightarrow> FileInfo" where
  "regular name = \<lparr>Name = name, IsRegular = True\<rparr>"

definition exampleFS :: filesystem where
  "exampleFS d =
     (if d = ''/go/src/a/b/c'' then Inr [regular ''c.go'', \<lparr>Name = ''LICENSE'', IsRegular = False\<rparr>]
      else if d = ''/go/src/a/b'' then Inr [regular ''COPYING'', regular ''b.go'']
      else if d = ''/go/src/a'' then Inr [regular ''LICENSE'', regular ''a.go'']
      else Inl ErrReadDir)"

definition examplePkg :: PkgInfo where
  "examplePkg = \<lparr>PkgInfo.Name = ''c'', Dir = ''/go/src/a/b/c'', Root = ''/go'', ImportPath = ''a/b/c'',
                  Error = None\<rparr>"

text \<open>A file system in which every directory is empty: the walk takes three iterations.\<close>

definition emptyFS :: filesystem where
  "emptyFS d = Inr []"

text \<open>A report row for a package and a license file, with a fixed match result.\<close>

definition row :: "string \<Rightarrow> string \<Rightarrow> License" where
  "row pkg path = \<lparr>Package = pkg, Score = Fin 1, Template = None, Path = path, Err = [],
                   ExtraWords = [], MissingWords = []\<rparr>"

section \<open>Facts about the matching loops\<close>

lemma map_of_None_keys: "(map_of tw w = None) = (w \<notin> keys tw)"
  by (simp add: keys_def map_of_eq_None_iff)

lemma extraLoop_eq:
  "extraLoop tw ws (c, e) =
     (c + length (filter (\<lambda>x. fst x \<in> keys tw) ws),
      e @ map mkWord (filter (\<lambda>x. fst x \<notin> keys tw) ws))"
  by (induction ws arbitrary: c e) (auto simp: map_of_None_keys mkWord_def)

lemma missingLoop_eq:
  "missingLoop words tw m = m @ map mkWord (filter (\<lambda>x. fst x \<notin> keys words) tw)"
  by (induction tw arbitrary: m) (auto simp: map_of_None_keys mkWord_def)

lemma matchLoop_Cons:
  "matchLoop words (t # ts) (bs, bt, be, bm) =
     (if fgt (score words t) bs
      then matchLoop words ts (score words t, Some t, extra words t, missing words t)
      else matchLoop words ts (bs, bt, be, bm))"
  by (simp add: score_def common_def extra_def missing_def split: prod.splits)

declare matchLoop.simps(2) [simp del]

lemma common_le: "common words t \<le> length words"
  by (simp add: common_def extraLoop_eq)

lemma score_cases:
  "score words t = (if length words + length (Words t) = 0 then NaN
     else Fin (2 * of_nat (common words t) / (of_nat (length words) + of_nat (length (Words t)))))"
  using common_le[of words t] by (auto simp: score_def scoreOf_def)

lemma fgt_trans: "fgt a b \<Longrightarrow> fgt b c \<Longrightarrow> fgt a c"
  by (cases a; cases b; cases c) auto

lemma fgt_asym: "fgt a b \<Longrightarrow> \<not> fgt b a"
  by (cases a; cases b) auto

lemma fgt_le_trans: "fgt a b \<Longrightarrow> \<not> fgt c b \<Longrightarrow> b \<noteq> NaN \<Longrightarrow> c \<noteq> NaN \<Longrightarrow> fgt a c"
  by (cases a; cases b; cases c) auto

lemma fgt_not_NaN: "fgt a b \<Longrightarrow> a \<noteq> NaN \<and> b \<noteq> NaN"
  by (cases a; cases b) auto

lemma matchLoop_inv:
  assumes "bs \<noteq> NaN"
  shows "(matchLoop words ts (bs, bt, be, bm) = (bs, bt, be, bm) \<and>
            (\<forall>t \<in> set ts. \<not> fgt (score words t) bs))
       \<or> (\<exists>i < length ts.
            matchLoop words ts (bs, bt, be, bm) =
              (score words (ts ! i), Some (ts ! i), extra words (ts ! i), missing words (ts ! i))
            \<and> fgt (score words (ts ! i)) bs
            \<and> (\<forall>j < length ts. \<not> fgt (score words (ts ! j)) (score words (ts ! i)))
            \<and> (\<forall>j < i. score words (ts ! j) = NaN \<or> fgt (score words (ts ! i)) (score words (ts ! j))))"
  using assms
proof (induction ts arbitrary: bs bt be bm)
  case Nil
  then show ?case by simp
next
  case (Cons t ts)
  show ?case
  proof (cases "fgt (score words t) bs")
    case True
    then have nn: "score words t \<noteq> NaN" using fgt_not_NaN by blast
    from Cons.IH[OF nn, of "Some t" "extra words t" "missing words t"]
    show ?thesis
    proof (elim disjE conjE exE)
      assume a: "matchLoop words ts (score words t, Some t, extra words t, missing words t)
                 = (score words t, Some t, extra words t, missing words t)"
        and b: "\<forall>t' \<in> set ts. \<not> fgt (score words t') (score words t)"
      have "\<forall>j < length (t # ts). \<not> fgt (score words ((t # ts) ! j)) (score words t)"
      proof (intro allI impI)
        fix j assume "j < length (t # ts)"
        then show "\<not> fgt (score words ((t # ts) ! j)) (score words t)"
          using b fgt_asym by (cases j) auto
      qed
      then show ?thesis using True a
        by (intro disjI2 exI[of _ 0]) (simp add: matchLoop_Cons)
    next
      fix i
      assume i: "i < length ts"
        and a: "matchLoop words ts (score words t, Some t, extra words t, missing words t)
                 = (score words (ts ! i), Some (ts ! i), extra words (ts ! i), missing words (ts ! i))"
        and g: "fgt (score words (ts ! i)) (score words t)"
        and mx: "\<forall>j < length ts. \<not> fgt (score words (ts ! j)) (score words (ts ! i))"
        and fst: "\<forall>j < i. score words (ts ! j) = NaN \<or> fgt (score words (ts ! i)) (score words (ts ! j))"
      have 1: "\<forall>j < length (t # ts). \<not> fgt (score words ((t # ts) ! j)) (score words (ts ! i))"
      proof (intro allI impI)
        fix j assume "j < length (t # ts)"
        then show "\<not> fgt (score words ((t # ts) ! j)) (score words (ts ! i))"
          using mx g fgt_asym by (cases j) auto
      qed
      have 2: "\<forall>j < Suc i. score words ((t # ts) ! j) = NaN
                 \<or> fgt (score words (ts ! i)) (score words ((t # ts) ! j))"
      proof (intro allI impI)
        fix j assume "j < Suc i"
        then show "score words ((t # ts) ! j) = NaN
                 \<or> fgt (score words (ts ! i)) (score words ((t # ts) ! j))"
          using fst g by (cases j) auto
      qed
      show ?thesis using True a i g 1 2 fgt_trans[OF g True]
        by (intro disjI2 exI[of _ "Suc i"]) (simp add: matchLoop_Cons)
    qed
  next
    case False
    from Cons.IH[OF Cons.prems, of bt be bm]
    show ?thesis
    proof (elim disjE conjE exE)
      assume a: "matchLoop words ts (bs, bt, be, bm) = (bs, bt, be, bm)"
        and b: "\<forall>t' \<in> set ts. \<not> fgt (score words t') bs"
      then show ?thesis using False by (intro disjI1) (simp add: matchLoop_Cons)
    next
      fix i
      assume i: "i < length ts"
        and a: "matchLoop words ts (bs, bt, be, bm)
                 = (score words (ts ! i), Some (ts ! i), extra words (ts ! i), missing words (ts ! i))"
        and g: "fgt (score words (ts ! i)) bs"
        and mx: "\<forall>j < length ts. \<not> fgt (score words (ts ! j)) (score words (ts ! i))"
        and fst: "\<forall>j < i. score words (ts ! j) = NaN \<or> fgt (score words (ts ! i)) (score words (ts ! j))"
      have t0: "score words t = NaN \<or> fgt (score words (ts ! i)) (score words t)"
        using fgt_le_trans[OF g False Cons.prems] by blast
      have 1: "\<forall>j < length (t # ts). \<not> fgt (score words ((t # ts) ! j)) (score words (ts ! i))"
      proof (intro allI impI)
        fix j assume "j < length (t # ts)"
        then show "\<not> fgt (score words ((t # ts) ! j)) (score words (ts ! i))"
          using mx t0 fgt_asym by (cases j) auto
      qed
      have 2: "\<forall>j < Suc i. score words ((t # ts) ! j) = NaN
                 \<or> fgt (score words (ts ! i)) (score words ((t # ts) ! j))"
      proof (intro allI impI)
        fix j assume "j < Suc i"
        then show "score words ((t # ts) ! j) = NaN
                 \<or> fgt (score words (ts ! i)) (score words ((t # ts) ! j))"
          using fst t0 by (cases j) auto
      qed
      show ?thesis using False a i g 1 2
        by (intro disjI2 exI[of _ "Suc i"]) (simp add: matchLoop_Cons)
    qed
  qed
qed

lemma wordLoop_inv:
  assumes "distinct (map fst words)" "distinct (map snd words)" "\<forall>p \<in> snd ` set words. p < int n"
  shows "distinct (map fst (wordLoop (enumerate n xs) words))
       \<and> distinct (map snd (wordLoop (enumerate n xs) words))
       \<and> (\<forall>p \<in> snd ` set (wordLoop (enumerate n xs) words). p < int (n + length xs))"
  using assms
proof (induction xs arbitrary: n words)
  case Nil
  then show ?case by simp
next
  case (Cons x xs)
  show ?case
  proof (cases "map_of words x = None")
    case True
    then have nk: "x \<notin> fst ` set words" by (simp add: map_of_eq_None_iff)
    have np: "int n \<notin> snd ` set words" using Cons.prems(3) by auto
    have 1: "distinct (map fst (words @ [(x, int n)]))" using Cons.prems(1) nk by auto
    have 2: "distinct (map snd (words @ [(x, int n)]))" using Cons.prems(2) np by auto
    have 3: "\<forall>p \<in> snd ` set (words @ [(x, int n)]). p < int (Suc n)"
      using Cons.prems(3) by auto
    from Cons.IH[OF 1 2 3] True show ?thesis by simp
  next
    case False
    have 3: "\<forall>p \<in> snd ` set words. p < int (Suc n)" using Cons.prems(3) by auto
    from Cons.IH[OF Cons.prems(1) Cons.prems(2) 3] False show ?thesis by auto
  qed
qed

lemma makeWordSet_distinct_keys: "distinct (map fst (makeWordSet data))"
  using wordLoop_inv[of "[]" 0] by (simp add: makeWordSet_def)

lemma makeWordSet_distinct_pos: "distinct (map snd (makeWordSet data))"
  using wordLoop_inv[of "[]" 0] by (simp add: makeWordSet_def)

lemma common_filter: "common words t = length (filter (\<lambda>x. fst x \<in> keys (Words t)) words)"
  by (simp add: common_def extraLoop_eq)

lemma extra_filter: "extra words t = map mkWord (filter (\<lambda>x. fst x \<notin> keys (Words t)) words)"
  by (simp add: extra_def extraLoop_eq)

lemma missing_filter: "missing words t = map mkWord (filter (\<lambda>x. fst x \<notin> keys words) (Words t))"
  by (simp add: missing_def missingLoop_eq)

lemma length_filter_keys:
  "distinct (map fst ws) \<Longrightarrow> length (filter (\<lambda>x. fst x \<in> A) ws) = card (keys ws \<inter> A)"
proof (induction ws)
  case Nil
  then show ?case by (simp add: keys_def)
next
  case (Cons x ws)
  then have nk: "fst x \<notin> keys ws" and IH: "length (filter (\<lambda>x. fst x \<in> A) ws) = card (keys ws \<inter> A)"
    by (auto simp: keys_def)
  have fin: "finite (keys ws \<inter> A)" by (simp add: keys_def)
  have k: "keys (x # ws) = insert (fst x) (keys ws)" by (simp add: keys_def)
  show ?case
  proof (cases "fst x \<in> A")
    case True
    then have "keys (x # ws) \<inter> A = insert (fst x) (keys ws \<inter> A)" using k by auto
    then show ?thesis using True IH fin nk by simp
  next
    case False
    then have "keys (x # ws) \<inter> A = keys ws \<inter> A" using k by auto
    then show ?thesis using False IH by simp
  qed
qed

lemma common_card:
  "distinct (map fst words) \<Longrightarrow> common words t = card (keys words \<inter> keys (Words t))"
  by (simp add: common_filter length_filter_keys)

lemma length_keys: "distinct (map fst ws) \<Longrightarrow> length ws = card (keys ws)"
  by (metis distinct_card keys_def length_map set_map)

lemma card_keys_le: "card (keys ws) \<le> length ws"
  by (metis card_length keys_def length_map set_map)

lemma common_le_template:
  assumes "distinct (map fst words)"
  shows "common words t \<le> length (Words t)"
proof -
  have "card (keys words \<inter> keys (Words t)) \<le> card (keys (Words t))"
    by (rule card_mono) (auto simp: keys_def)
  then show ?thesis using assms card_keys_le[of "Words t"] by (simp add: common_card)
qed

lemma common_eq_length_words:
  assumes "distinct (map fst words)"
  shows "(common words t = length words) = (keys words \<subseteq> keys (Words t))"
proof -
  have fin: "finite (keys words)" by (simp add: keys_def)
  have "(card (keys words \<inter> keys (Words t)) = card (keys words)) = (keys words \<subseteq> keys (Words t))"
  proof
    assume "card (keys words \<inter> keys (Words t)) = card (keys words)"
    then have "keys words \<inter> keys (Words t) = keys words"
      using fin by (intro card_subset_eq) auto
    then show "keys words \<subseteq> keys (Words t)" by blast
  next
    assume "keys words \<subseteq> keys (Words t)"
    then show "card (keys words \<inter> keys (Words t)) = card (keys words)"
      by (simp add: Int_absorb2)
  qed
  then show ?thesis using assms by (simp add: common_card length_keys)
qed

lemma common_eq_length_template:
  assumes "distinct (map fst words)" "distinct (map fst (Words t))"
  shows "(common words t = length (Words t)) = (keys (Words t) \<subseteq> keys words)"
proof -
  have fin: "finite (keys (Words t))" by (simp add: keys_def)
  have "(card (keys words \<inter> keys (Words t)) = card (keys (Words t))) = (keys (Words t) \<subseteq> keys words)"
  proof
    assume "card (keys words \<inter> keys (Words t)) = card (keys (Words t))"
    then have "keys words \<inter> keys (Words t) = keys (Words t)"
      using fin by (intro card_subset_eq) auto
    then show "keys (Words t) \<subseteq> keys words" by blast
  next
    assume "keys (Words t) \<subseteq> keys words"
    then show "card (keys words \<inter> keys (Words t)) = card (keys (Words t))"
      by (simp add: Int_absorb1)
  qed
  then show ?thesis using assms by (simp add: common_card length_keys)
qed

lemma frac_bounds: "(0::rat) \<le> a \<Longrightarrow> a \<le> d \<Longrightarrow> 0 \<le> a / d \<and> a / d \<le> 1"
  by (cases "d = 0") (auto simp: divide_le_eq_1)

lemma dice_bounds:
  assumes "distinct (map fst words)"
  shows "0 \<le> dice words t \<and> dice words t \<le> 1"
proof -
  define c n m where "c = common words t" and "n = length words" and "m = length (Words t)"
  have "2 * c \<le> n + m"
    using common_le[of words t] common_le_template[OF assms, of t] by (simp add: c_def n_def m_def)
  then have "(of_nat (2 * c) :: rat) \<le> of_nat (n + m)"
    by (simp only: of_nat_le_iff)
  then have le: "(2 * of_nat c :: rat) \<le> of_nat n + of_nat m" by simp
  have "(0::rat) \<le> 2 * of_nat c" by simp
  from frac_bounds[OF this le] show ?thesis
    by (simp only: dice_def c_def n_def m_def)
qed

lemma dice_one:
  assumes "distinct (map fst words)" "distinct (map fst (Words t))"
    "length words + length (Words t) \<noteq> 0"
  shows "(dice words t = 1) = (keys words = keys (Words t))"
proof -
  have le1: "common words t \<le> length words" by (rule common_le)
  have le2: "common words t \<le> length (Words t)" by (rule common_le_template[OF assms(1)])
  have pos: "(of_nat (length words) + of_nat (length (Words t)) :: rat) \<noteq> 0"
    using assms(3) by (metis of_nat_0_eq_iff of_nat_add)
  have "(dice words t = 1) =
        ((2 * of_nat (common words t) :: rat) = of_nat (length words) + of_nat (length (Words t)))"
    using pos by (auto simp: dice_def)
  also have "\<dots> = ((of_nat (2 * common words t) :: rat) = of_nat (length words + length (Words t)))"
    by simp
  also have "\<dots> = (2 * common words t = length words + length (Words t))"
    by (simp only: of_nat_eq_iff)
  also have "\<dots> = (common words t = length words \<and> common words t = length (Words t))"
    using le1 le2 by linarith
  also have "\<dots> = (keys words \<subseteq> keys (Words t) \<and> keys (Words t) \<subseteq> keys words)"
    using assms by (simp add: common_eq_length_words common_eq_length_template)
  finally show ?thesis by blast
qed

lemma score_dice:
  "score words t = (if words = [] \<and> Words t = [] then NaN else Fin (dice words t))"
  by (simp add: score_cases dice_def)

lemma score_not_gt_iff:
  "(\<not> fgt (score words t) (Fin (- 1))) = (words = [] \<and> Words t = [])"
proof -
  have "(0::rat) \<le> dice words t" by (simp add: dice_def)
  then have "(- 1::rat) < dice words t" by linarith
  then show ?thesis by (simp add: score_dice)
qed

lemma matchWords_none:
  assumes "\<forall>t \<in> set ts. words = [] \<and> Words t = []"
  shows "matchWords words ts = \<lparr>Template = None, Score = Fin (- 1), ExtraWords = [], MissingWords = []\<rparr>"
proof -
  have "\<forall>t \<in> set ts. \<not> fgt (score words t) (Fin (- 1))"
    using assms score_not_gt_iff by blast
  then have "matchLoop words ts (Fin (- 1), None, [], []) = (Fin (- 1), None, [], [])"
    using matchLoop_inv[of "Fin (- 1)" words ts None "[]" "[]"] by auto
  then show ?thesis by (simp add: matchWords_def sortAndReturnWords_def)
qed

lemma matchWords_some:
  assumes "\<exists>t \<in> set ts. words \<noteq> [] \<or> Words t \<noteq> []"
  shows "\<exists>i < length ts.
           matchWords words ts =
             \<lparr>Template = Some (ts ! i), Score = Fin (dice words (ts ! i)),
              ExtraWords = sortAndReturnWords (extra words (ts ! i)),
              MissingWords = sortAndReturnWords (missing words (ts ! i))\<rparr>
         \<and> (words \<noteq> [] \<or> Words (ts ! i) \<noteq> [])
         \<and> (\<forall>j < length ts. words \<noteq> [] \<or> Words (ts ! j) \<noteq> [] \<longrightarrow>
                dice words (ts ! j) \<le> dice words (ts ! i))
         \<and> (\<forall>j < i. words \<noteq> [] \<or> Words (ts ! j) \<noteq> [] \<longrightarrow>
                dice words (ts ! j) < dice words (ts ! i))"
proof -
  from assms have "\<not> (\<forall>t \<in> set ts. \<not> fgt (score words t) (Fin (- 1)))"
    using score_not_gt_iff by blast
  with matchLoop_inv[of "Fin (- 1)" words ts None "[]" "[]"]
  obtain i where i: "i < length ts"
    and eq: "matchLoop words ts (Fin (- 1), None, [], []) =
              (score words (ts ! i), Some (ts ! i), extra words (ts ! i), missing words (ts ! i))"
    and g: "fgt (score words (ts ! i)) (Fin (- 1))"
    and mx: "\<forall>j < length ts. \<not> fgt (score words (ts ! j)) (score words (ts ! i))"
    and fs: "\<forall>j < i. score words (ts ! j) = NaN \<or> fgt (score words (ts ! i)) (score words (ts ! j))"
    by auto
  from g have ne: "words \<noteq> [] \<or> Words (ts ! i) \<noteq> []"
    using score_not_gt_iff by blast
  then have sc: "score words (ts ! i) = Fin (dice words (ts ! i))" by (auto simp: score_dice)
  have 1: "\<forall>j < length ts. words \<noteq> [] \<or> Words (ts ! j) \<noteq> [] \<longrightarrow>
                dice words (ts ! j) \<le> dice words (ts ! i)"
  proof (intro allI impI)
    fix j assume "j < length ts" and "words \<noteq> [] \<or> Words (ts ! j) \<noteq> []"
    then show "dice words (ts ! j) \<le> dice words (ts ! i)"
      using mx sc by (auto simp: score_dice)
  qed
  have 2: "\<forall>j < i. words \<noteq> [] \<or> Words (ts ! j) \<noteq> [] \<longrightarrow>
                dice words (ts ! j) < dice words (ts ! i)"
  proof (intro allI impI)
    fix j assume "j < i" and "words \<noteq> [] \<or> Words (ts ! j) \<noteq> []"
    then show "dice words (ts ! j) < dice words (ts ! i)"
      using fs sc by (auto simp: score_dice)
  qed
  have "matchWords words ts =
             \<lparr>Template = Some (ts ! i), Score = Fin (dice words (ts ! i)),
              ExtraWords = sortAndReturnWords (extra words (ts ! i)),
              MissingWords = sortAndReturnWords (missing words (ts ! i))\<rparr>"
    using eq sc by (simp add: matchWords_def)
  with i ne 1 2 show ?thesis by blast
qed

lemma matchWords_Template_Some:
  assumes "MatchResult.Template (matchWords words ts) = Some t"
  shows "\<exists>t \<in> set ts. words \<noteq> [] \<or> Words t \<noteq> []"
proof (rule ccontr)
  assume "\<not> ?thesis"
  then have "\<forall>t \<in> set ts. words = [] \<and> Words t = []" by blast
  from matchWords_none[OF this] assms show False by simp
qed

lemma set_sortAndReturnWords: "set (sortAndReturnWords ws) = Text ` set ws"
  by (simp add: sortAndReturnWords_def)

lemma length_sortAndReturnWords: "length (sortAndReturnWords ws) = length ws"
  by (simp add: sortAndReturnWords_def)

lemma Text_mkWord: "Text (mkWord e) = fst e" and Pos_mkWord: "Pos (mkWord e) = snd e"
  by (simp_all add: mkWord_def)

lemma set_extra: "Text ` set (extra words t) = keys words - keys (Words t)"
  by (auto simp: extra_filter keys_def image_image Text_mkWord)

lemma set_missing: "Text ` set (missing words t) = keys (Words t) - keys words"
  by (auto simp: missing_filter keys_def image_image Text_mkWord)

lemma common_plus_extra: "common words t + length (extra words t) = length words"
  by (simp add: common_filter extra_filter sum_length_filter_compl)

section \<open>Score bounds (C1, C2)\<close>

lemma makeWordSet_example: "makeWordSet ''Free to use'' = [(''free'', 0), (''to'', 1), (''use'', 2)]"
  by code_simp

lemma makeWordSet_notice: "makeWordSet ''Copyright (c) 2014 Jane Doe'' = []"
  by code_simp

text \<open>
  Claim C1, as the code has it: when some template has a defined score (the candidate's
  word set or that template's is not empty), \<open>matchTemplates\<close> returns a template of the
  list and a score \<open>q\<close> with \<open>0 \<le> q \<le> 1\<close>, and \<open>q = 1\<close> exactly when the candidate's
  token set and the returned template's token set are equal.
\<close>

theorem match_score_bounds:
  assumes "validTemplates templates"
    and "\<exists>t \<in> set templates. makeWordSet license \<noteq> [] \<or> Words t \<noteq> []"
  shows "\<exists>t q. MatchResult.Template (matchTemplates license templates) = Some t
           \<and> t \<in> set templates
           \<and> MatchResult.Score (matchTemplates license templates) = Fin q
           \<and> 0 \<le> q \<and> q \<le> 1
           \<and> (q = 1) = (keys (makeWordSet license) = keys (Words t))"
proof -
  let ?w = "makeWordSet license"
  from matchWords_some[OF assms(2)] obtain i where i: "i < length templates"
    and eq: "matchWords ?w templates =
             \<lparr>Template = Some (templates ! i), Score = Fin (dice ?w (templates ! i)),
              ExtraWords = sortAndReturnWords (extra ?w (templates ! i)),
              MissingWords = sortAndReturnWords (missing ?w (templates ! i))\<rparr>"
    and ne: "?w \<noteq> [] \<or> Words (templates ! i) \<noteq> []"
    by blast
  have mem: "templates ! i \<in> set templates" using i by simp
  have d1: "distinct (map fst ?w)" by (rule makeWordSet_distinct_keys)
  have d2: "distinct (map fst (Words (templates ! i)))"
    using assms(1) mem by (simp add: validTemplates_def list_all_iff)
  have len: "length ?w + length (Words (templates ! i)) \<noteq> 0" using ne by auto
  show ?thesis
    using eq mem dice_bounds[OF d1, of "templates ! i"] dice_one[OF d1 d2 len]
    by (simp add: matchTemplates_def)
qed

text \<open>The bounds at a candidate that matches the third template exactly.\<close>

theorem match_score_bounds_witness:
  "validTemplates exampleTemplates
   \<and> (\<exists>t \<in> set exampleTemplates. makeWordSet ''Free to use'' \<noteq> [] \<or> Words t \<noteq> [])
   \<and> (\<exists>t q. MatchResult.Template (matchTemplates ''Free to use'' exampleTemplates) = Some t
           \<and> t \<in> set exampleTemplates
           \<and> MatchResult.Score (matchTemplates ''Free to use'' exampleTemplates) = Fin q
           \<and> 0 \<le> q \<and> q \<le> 1
           \<and> (q = 1) = (keys (makeWordSet ''Free to use'') = keys (Words t)))"
proof -
  have h1: "validTemplates exampleTemplates"
    by (simp add: exampleTemplates_def validTemplates_def)
  have h2: "\<exists>t \<in> set exampleTemplates. makeWordSet ''Free to use'' \<noteq> [] \<or> Words t \<noteq> []"
    by (auto simp: exampleTemplates_def makeWordSet_example)
  from match_score_bounds[OF h1 h2] h1 h2 show ?thesis by blast
qed

text \<open>
  C1 as stated fails in the degenerate case it includes: a candidate holding only a
  copyright notice has an empty word set; against a single template with an empty word
  set the quotient is \<open>0/0\<close>, no template is selected, and the score returned is the
  initial \<open>-1\<close>, although the two token sets are equal.
\<close>

theorem match_score_degenerate:
  "MatchResult.Score (matchTemplates ''Copyright (c) 2014 Jane Doe''
       [\<lparr>Title = ''No License'', Nickname = '''', Words = []\<rparr>]) = Fin (- 1)
   \<and> MatchResult.Template (matchTemplates ''Copyright (c) 2014 Jane Doe''
       [\<lparr>Title = ''No License'', Nickname = '''', Words = []\<rparr>]) = None
   \<and> keys (makeWordSet ''Copyright (c) 2014 Jane Doe'')
       = keys (Words \<lparr>Title = ''No License'', Nickname = '''', Words = []\<rparr>)"
  by (simp add: makeWordSet_notice matchTemplates_def matchWords_def matchLoop.simps
      scoreOf_def sortAndReturnWords_def keys_def)

text \<open>
  Claim C2 says that an empty template list gives score 0 and no template, and that \<open>-1\<close>
  is never returned. The code returns its initial \<open>bestScore\<close>, which is \<open>-1\<close>.
\<close>

theorem match_no_templates:
  "matchTemplates license [] =
     \<lparr>Template = None, Score = Fin (- 1), ExtraWords = [], MissingWords = []\<rparr>"
  by (simp add: matchTemplates_def matchWords_def sortAndReturnWords_def)

section \<open>The selected template (C5)\<close>

lemma makeWordSet_share:
  "makeWordSet ''Free to use and share'' =
     [(''free'', 0), (''to'', 1), (''use'', 2), (''and'', 3), (''share'', 4)]"
  by code_simp

lemma match_share_Template:
  "MatchResult.Template (matchTemplates ''Free to use and share'' exampleTemplates) = Some templateTwo"
  by code_simp

text \<open>
  Claim C5: for every candidate and template list, \<open>matchTemplates\<close> computes for each
  template \<open>common\<close>, the number of tokens in both word sets, and the score
  \<open>2 * common / (|candidateWords| + |templateWords|)\<close> (which is \<open>0/0\<close>, not a score, when
  both sets are empty); it returns the template with the greatest score, the first one in
  list order among those that attain it. When no template has a score, none is returned.
\<close>

theorem match_selects_best:
  "(\<forall>t \<in> set templates.
       common (makeWordSet license) t = card (keys (makeWordSet license) \<inter> keys (Words t))
     \<and> score (makeWordSet license) t =
         (if makeWordSet license = [] \<and> Words t = [] then NaN
          else Fin (2 * of_nat (common (makeWordSet license) t)
                    / (of_nat (length (makeWordSet license)) + of_nat (length (Words t))))))
 \<and> (if \<exists>t \<in> set templates. makeWordSet license \<noteq> [] \<or> Words t \<noteq> []
     then \<exists>i < length templates.
            MatchResult.Template (matchTemplates license templates) = Some (templates ! i)
          \<and> MatchResult.Score (matchTemplates license templates)
              = score (makeWordSet license) (templates ! i)
          \<and> score (makeWordSet license) (templates ! i)
              = Fin (dice (makeWordSet license) (templates ! i))
          \<and> (\<forall>j < length templates.
                 makeWordSet license \<noteq> [] \<or> Words (templates ! j) \<noteq> [] \<longrightarrow>
                 dice (makeWordSet license) (templates ! j)
                   \<le> dice (makeWordSet license) (templates ! i))
          \<and> (\<forall>j < i.
                 makeWordSet license \<noteq> [] \<or> Words (templates ! j) \<noteq> [] \<longrightarrow>
                 dice (makeWordSet license) (templates ! j)
                   < dice (makeWordSet license) (templates ! i))
     else MatchResult.Template (matchTemplates license templates) = None)"
proof -
  let ?w = "makeWordSet license"
  have A: "\<forall>t \<in> set templates.
       common ?w t = card (keys ?w \<inter> keys (Words t))
     \<and> score ?w t =
         (if ?w = [] \<and> Words t = [] then NaN
          else Fin (2 * of_nat (common ?w t) / (of_nat (length ?w) + of_nat (length (Words t)))))"
    using common_card[OF makeWordSet_distinct_keys] by (simp add: score_dice dice_def)
  show ?thesis
  proof (cases "\<exists>t \<in> set templates. ?w \<noteq> [] \<or> Words t \<noteq> []")
    case True
    from matchWords_some[OF True] obtain i where i: "i < length templates"
      and eq: "matchWords ?w templates =
             \<lparr>Template = Some (templates ! i), Score = Fin (dice ?w (templates ! i)),
              ExtraWords = sortAndReturnWords (extra ?w (templates ! i)),
              MissingWords = sortAndReturnWords (missing ?w (templates ! i))\<rparr>"
      and ne: "?w \<noteq> [] \<or> Words (templates ! i) \<noteq> []"
      and mx: "\<forall>j < length templates. ?w \<noteq> [] \<or> Words (templates ! j) \<noteq> [] \<longrightarrow>
                dice ?w (templates ! j) \<le> dice ?w (templates ! i)"
      and fs: "\<forall>j < i. ?w \<noteq> [] \<or> Words (templates ! j) \<noteq> [] \<longrightarrow>
                dice ?w (templates ! j) < dice ?w (templates ! i)"
      by blast
    have sc: "score ?w (templates ! i) = Fin (dice ?w (templates ! i))"
      using ne by (auto simp: score_dice)
    have "\<exists>i < length templates.
            MatchResult.Template (matchTemplates license templates) = Some (templates ! i)
          \<and> MatchResult.Score (matchTemplates license templates) = score ?w (templates ! i)
          \<and> score ?w (templates ! i) = Fin (dice ?w (templates ! i))
          \<and> (\<forall>j < length templates. ?w \<noteq> [] \<or> Words (templates ! j) \<noteq> [] \<longrightarrow>
                 dice ?w (templates ! j) \<le> dice ?w (templates ! i))
          \<and> (\<forall>j < i. ?w \<noteq> [] \<or> Words (templates ! j) \<noteq> [] \<longrightarrow>
                 dice ?w (templates ! j) < dice ?w (templates ! i))"
      using i eq sc mx fs by (intro exI[of _ i]) (simp add: matchTemplates_def)
    with A True show ?thesis by (simp only: if_True simp_thms)
  next
    case False
    then have "\<forall>t \<in> set templates. ?w = [] \<and> Words t = []" by blast
    from matchWords_none[OF this]
    have "MatchResult.Template (matchTemplates license templates) = None"
      by (simp add: matchTemplates_def)
    with A False show ?thesis by (simp only: if_False simp_thms)
  qed
qed

text \<open>Two templates tie at score 1; the earlier one is returned.\<close>

theorem match_selects_best_witness:
  "MatchResult.Template (matchTemplates ''Free to use'' exampleTemplates) = Some (exampleTemplates ! 2)
   \<and> MatchResult.Score (matchTemplates ''Free to use'' exampleTemplates) = Fin 1
   \<and> dice (makeWordSet ''Free to use'') (exampleTemplates ! 3) = 1"
proof -
  let ?w = "makeWordSet ''Free to use''"
  have d0: "dice ?w (exampleTemplates ! 0) = 0" by code_simp
  have d1: "dice ?w (exampleTemplates ! 1) = 2 / 3" by code_simp
  have d2: "dice ?w (exampleTemplates ! 2) = 1" by code_simp
  have d3: "dice ?w (exampleTemplates ! 3) = 1" by code_simp
  have ne: "?w \<noteq> []" by (simp add: makeWordSet_example)
  have len: "length exampleTemplates = 4" by (simp add: exampleTemplates_def)
  have ex: "\<exists>t \<in> set exampleTemplates. ?w \<noteq> [] \<or> Words t \<noteq> []"
    using ne by (auto simp: exampleTemplates_def)
  from match_selects_best[of exampleTemplates "''Free to use''"] ex
  obtain i where i: "i < 4"
    and T: "MatchResult.Template (matchTemplates ''Free to use'' exampleTemplates) = Some (exampleTemplates ! i)"
    and S: "MatchResult.Score (matchTemplates ''Free to use'' exampleTemplates) = score ?w (exampleTemplates ! i)"
    and F: "score ?w (exampleTemplates ! i) = Fin (dice ?w (exampleTemplates ! i))"
    and mx: "\<forall>j < 4. dice ?w (exampleTemplates ! j) \<le> dice ?w (exampleTemplates ! i)"
    and fs: "\<forall>j < i. dice ?w (exampleTemplates ! j) < dice ?w (exampleTemplates ! i)"
    using ne len by auto
  have "i = 2"
  proof -
    consider "i = 0" | "i = 1" | "i = 2" | "i = 3" using i by linarith
    then show ?thesis
    proof cases
      case 1 then show ?thesis using mx[rule_format, of 2] d0 d2 by simp
    next
      case 2 then show ?thesis using mx[rule_format, of 2] d1 d2 by simp
    next
      case 3 then show ?thesis .
    next
      case 4 then show ?thesis using fs[rule_format, of 2] d2 d3 by simp
    qed
  qed
  then show ?thesis using T S F d2 d3 by simp
qed

section \<open>The vocabulary delta (C7)\<close>

text \<open>
  Claim C7: the returned \<open>ExtraWords\<close> and \<open>MissingWords\<close> are disjoint as token sets, and
  for the returned template every token of the candidate is either common or extra:
  \<open>common + |ExtraWords| = |candidateWords|\<close>.
\<close>

theorem match_word_delta:
  "set (ExtraWords (matchTemplates license templates))
     \<inter> set (MissingWords (matchTemplates license templates)) = {}
 \<and> (MatchResult.Template (matchTemplates license templates) = Some t \<longrightarrow>
       set (ExtraWords (matchTemplates license templates))
         = keys (makeWordSet license) - keys (Words t)
     \<and> set (MissingWords (matchTemplates license templates))
         = keys (Words t) - keys (makeWordSet license)
     \<and> common (makeWordSet license) t = card (keys (makeWordSet license) \<inter> keys (Words t))
     \<and> common (makeWordSet license) t + length (ExtraWords (matchTemplates license templates))
         = length (makeWordSet license)
     \<and> length (makeWordSet license) = card (keys (makeWordSet license)))"
proof -
  let ?w = "makeWordSet license"
  let ?r = "matchTemplates license templates"
  show ?thesis
  proof (cases "\<exists>t \<in> set templates. ?w \<noteq> [] \<or> Words t \<noteq> []")
    case True
    from matchWords_some[OF True] obtain i where i: "i < length templates"
      and eq: "matchWords ?w templates =
             \<lparr>Template = Some (templates ! i), Score = Fin (dice ?w (templates ! i)),
              ExtraWords = sortAndReturnWords (extra ?w (templates ! i)),
              MissingWords = sortAndReturnWords (missing ?w (templates ! i))\<rparr>"
      by blast
    let ?b = "templates ! i"
    have T: "MatchResult.Template ?r = Some ?b" using eq by (simp add: matchTemplates_def)
    have E: "set (ExtraWords ?r) = keys ?w - keys (Words ?b)"
      using eq by (simp add: matchTemplates_def set_sortAndReturnWords set_extra)
    have M: "set (MissingWords ?r) = keys (Words ?b) - keys ?w"
      using eq by (simp add: matchTemplates_def set_sortAndReturnWords set_missing)
    have L: "length (ExtraWords ?r) = length (extra ?w ?b)"
      using eq by (simp add: matchTemplates_def length_sortAndReturnWords)
    have C: "common ?w ?b = card (keys ?w \<inter> keys (Words ?b))"
      by (rule common_card[OF makeWordSet_distinct_keys])
    have S: "common ?w ?b + length (ExtraWords ?r) = length ?w"
      using L common_plus_extra[of ?w ?b] by simp
    have K: "length ?w = card (keys ?w)" by (rule length_keys[OF makeWordSet_distinct_keys])
    have D: "set (ExtraWords ?r) \<inter> set (MissingWords ?r) = {}" using E M by blast
    show ?thesis using T E M C S K D by auto
  next
    case False
    then have "\<forall>t \<in> set templates. ?w = [] \<and> Words t = []" by blast
    from matchWords_none[OF this] show ?thesis by (simp add: matchTemplates_def)
  qed
qed

theorem match_word_delta_witness:
  "MatchResult.Template (matchTemplates ''Free to use and share'' exampleTemplates) = Some templateTwo
   \<and> set (ExtraWords (matchTemplates ''Free to use and share'' exampleTemplates))
       = keys (makeWordSet ''Free to use and share'') - keys (Words templateTwo)
   \<and> common (makeWordSet ''Free to use and share'') templateTwo = 3
   \<and> length (ExtraWords (matchTemplates ''Free to use and share'' exampleTemplates)) = 2"
proof -
  let ?r = "matchTemplates ''Free to use and share'' exampleTemplates"
  let ?w = "makeWordSet ''Free to use and share''"
  have c: "common ?w templateTwo = 3" by code_simp
  have l: "length ?w = 5" by (simp add: makeWordSet_share)
  from match_word_delta[of "''Free to use and share''" exampleTemplates templateTwo]
    match_share_Template
  have "set (ExtraWords ?r) = keys ?w - keys (Words templateTwo)"
    and "common ?w templateTwo + length (ExtraWords ?r) = length ?w"
    by simp_all
  then show ?thesis using match_share_Template c l by simp
qed

section \<open>Independence of the iteration order (C8)\<close>

lemma keys_mset: "mset ws' = mset ws \<Longrightarrow> keys ws' = keys ws"
  by (metis keys_def set_mset_mset)

lemma length_mset: "mset ws' = mset ws \<Longrightarrow> length ws' = length ws"
  by (metis size_mset)

lemma filter_singleton:
  "distinct (map f zs) \<Longrightarrow> k \<in> set zs \<Longrightarrow> filter (\<lambda>x. f k = f x) zs = [k]"
proof (induction zs)
  case Nil
  then show ?case by simp
next
  case (Cons z zs)
  show ?case
  proof (cases "k = z")
    case True
    have "filter (\<lambda>x. f z = f x) zs = []"
      using Cons.prems(1) by (auto simp: filter_empty_conv)
    then show ?thesis using True by simp
  next
    case False
    then have "k \<in> set zs" using Cons.prems(2) by simp
    moreover have "f z \<notin> f ` set zs" using Cons.prems(1) by simp
    then have "f k \<noteq> f z" using calculation by (metis imageI)
    ultimately show ?thesis using Cons by simp
  qed
qed

lemma distinct_map_mset:
  assumes "mset ys = mset xs" "distinct (map f xs)"
  shows "distinct (map f ys)"
proof -
  have "mset (map f ys) = mset (map f xs)" using assms(1) by simp
  then show ?thesis using assms(2) by (metis mset_eq_imp_distinct_iff)
qed

lemma sorted_by_key_unique:
  assumes "mset ys = mset xs" "sorted (map f ys)" "distinct (map f xs)"
  shows "sort_key f xs = ys"
proof (rule properties_for_sort_key[OF assms(1) _ assms(2)])
  fix k assume k: "k \<in> set ys"
  then have kx: "k \<in> set xs" using assms(1) by (metis set_mset_mset)
  have dy: "distinct (map f ys)" by (rule distinct_map_mset[OF assms(1) assms(3)])
  show "filter (\<lambda>x. f k = f x) ys = filter (\<lambda>x. f k = f x) xs"
    by (simp add: filter_singleton[OF dy k] filter_singleton[OF assms(3) kx])
qed

lemma sorted_by_Pos_unique:
  assumes "mset ys = mset xs" "sorted (map Pos ys)" "distinct (map Pos xs)"
  shows "map Text ys = sortAndReturnWords xs"
  using sorted_by_key_unique[OF assms] by (simp add: sortAndReturnWords_def)

lemma sortAndReturnWords_mset:
  assumes "mset ys = mset xs" "distinct (map Pos xs)"
  shows "sortAndReturnWords ys = sortAndReturnWords xs"
proof -
  have "sort_key Pos xs = sort_key Pos ys"
    by (rule sorted_by_key_unique) (use assms in simp_all)
  then show ?thesis by (simp add: sortAndReturnWords_def)
qed

lemma common_mset:
  assumes "mset ws' = mset ws" "mset (Words t') = mset (Words t)"
  shows "common ws' t' = common ws t"
proof -
  have "length (filter (\<lambda>x. fst x \<in> keys (Words t)) ws')
        = size (filter_mset (\<lambda>x. fst x \<in> keys (Words t)) (mset ws'))"
    by (metis mset_filter size_mset)
  also have "\<dots> = length (filter (\<lambda>x. fst x \<in> keys (Words t)) ws)"
    using assms(1) by (metis mset_filter size_mset)
  finally show ?thesis using keys_mset[OF assms(2)] by (simp add: common_filter)
qed

lemma extra_mset:
  assumes "mset ws' = mset ws" "mset (Words t') = mset (Words t)"
  shows "mset (extra ws' t') = mset (extra ws t)"
  using assms(1) keys_mset[OF assms(2)]
  by (simp add: extra_filter)

lemma missing_mset:
  assumes "mset ws' = mset ws" "mset (Words t') = mset (Words t)"
  shows "mset (missing ws' t') = mset (missing ws t)"
  using assms(2) keys_mset[OF assms(1)]
  by (simp add: missing_filter)

lemma score_mset:
  assumes "mset ws' = mset ws" "mset (Words t') = mset (Words t)"
  shows "score ws' t' = score ws t"
  using common_mset[OF assms] length_mset[OF assms(1)] length_mset[OF assms(2)]
  by (simp add: score_def)

lemma distinct_Pos_extra: "distinct (map snd ws) \<Longrightarrow> distinct (map Pos (extra ws t))"
  by (simp add: extra_filter comp_def Pos_mkWord distinct_map_filter)

lemma distinct_Pos_missing:
  "distinct (map snd (Words t)) \<Longrightarrow> distinct (map Pos (missing ws t))"
  by (simp add: missing_filter comp_def Pos_mkWord distinct_map_filter)

lemma matchLoop_rel:
  assumes "list_all2 sameTemplate ts ts'" "mset ws' = mset ws" "sameBest b b'"
  shows "sameBest (matchLoop ws ts b) (matchLoop ws' ts' b')"
  using assms
proof (induction ts ts' arbitrary: b b' rule: list_all2_induct)
  case Nil
  then show ?case by simp
next
  case (Cons t ts t' ts')
  obtain s bt e m where b: "b = (s, bt, e, m)" by (cases b) auto
  obtain s' bt' e' m' where b': "b' = (s', bt', e', m')" by (cases b') auto
  have w: "mset (Words t') = mset (Words t)" using Cons.hyps(1) by (simp add: sameTemplate_def)
  have sc: "score ws' t' = score ws t" by (rule score_mset[OF Cons.prems(1) w])
  have ss: "s' = s" using Cons.prems(2) b b' by simp
  show ?case
  proof (cases "fgt (score ws t) s")
    case True
    have "sameBest (score ws t, Some t, extra ws t, missing ws t)
                   (score ws' t', Some t', extra ws' t', missing ws' t')"
      using sc Cons.hyps(1) extra_mset[OF Cons.prems(1) w] missing_mset[OF Cons.prems(1) w]
      by simp
    from Cons.IH[OF Cons.prems(1) this] True show ?thesis
      by (simp add: b b' ss sc matchLoop_Cons)
  next
    case False
    from Cons.IH[OF Cons.prems(1) Cons.prems(2)] False show ?thesis
      by (simp add: b b' ss sc matchLoop_Cons)
  qed
qed

lemma matchLoop_distinct_Pos:
  assumes "distinct (map snd ws)" "list_all (\<lambda>t. distinct (map snd (Words t))) ts"
    and "matchLoop ws ts (Fin (- 1), None, [], []) = (s, bt, e, m)"
  shows "distinct (map Pos e) \<and> distinct (map Pos m)"
proof -
  from matchLoop_inv[of "Fin (- 1)" ws ts None "[]" "[]"]
  consider "matchLoop ws ts (Fin (- 1), None, [], []) = (Fin (- 1), None, [], [])"
    | i where "i < length ts"
      "matchLoop ws ts (Fin (- 1), None, [], []) =
         (score ws (ts ! i), Some (ts ! i), extra ws (ts ! i), missing ws (ts ! i))"
    by auto
  then show ?thesis
  proof cases
    case 1
    then show ?thesis using assms(3) by simp
  next
    case 2
    have "distinct (map snd (Words (ts ! i)))"
      using assms(2) 2(1) by (simp add: list_all_length)
    then show ?thesis
      using 2(2) assms(3) distinct_Pos_extra[OF assms(1)] distinct_Pos_missing by auto
  qed
qed

text \<open>
  Claim C8: for a fixed corpus and candidate, \<open>matchTemplates\<close> returns the same template,
  score and word lists whatever order the maps are iterated in: running the loops on any
  reordering of the candidate's word set and of each template's word set gives the same
  score, the same template (as a map) and identical \<open>ExtraWords\<close> and \<open>MissingWords\<close>.
  The positions of a template built by \<open>makeWordSet\<close> are distinct
  (\<open>makeWordSet_distinct_pos\<close>), which also makes the result of the unstable library sort
  unique (\<open>sorted_by_Pos_unique\<close>).
\<close>

theorem match_order_independent:
  assumes "mset words' = mset (makeWordSet license)"
    and "list_all2 sameTemplate templates templates'"
    and "validPositions templates"
  shows "MatchResult.Score (matchWords words' templates')
           = MatchResult.Score (matchTemplates license templates)
       \<and> rel_option sameTemplate (MatchResult.Template (matchTemplates license templates))
            (MatchResult.Template (matchWords words' templates'))
       \<and> ExtraWords (matchWords words' templates') = ExtraWords (matchTemplates license templates)
       \<and> MissingWords (matchWords words' templates')
           = MissingWords (matchTemplates license templates)"
proof -
  let ?w = "makeWordSet license"
  obtain s bt e m where r: "matchLoop ?w templates (Fin (- 1), None, [], []) = (s, bt, e, m)"
    by (cases "matchLoop ?w templates (Fin (- 1), None, [], [])") auto
  obtain s' bt' e' m' where r': "matchLoop words' templates' (Fin (- 1), None, [], []) = (s', bt', e', m')"
    by (cases "matchLoop words' templates' (Fin (- 1), None, [], [])") auto
  have "sameBest (Fin (- 1), None, [], []) (Fin (- 1), None, [], [])" by simp
  from matchLoop_rel[OF assms(2) assms(1) this]
  have rel: "s' = s" "rel_option sameTemplate bt bt'" "mset e' = mset e" "mset m' = mset m"
    by (simp_all add: r r')
  have d: "distinct (map Pos e) \<and> distinct (map Pos m)"
    using matchLoop_distinct_Pos[OF makeWordSet_distinct_pos _ r] assms(3)
    by (simp add: validPositions_def)
  have E: "sortAndReturnWords e' = sortAndReturnWords e"
    using sortAndReturnWords_mset[OF rel(3)] d by simp
  have M: "sortAndReturnWords m' = sortAndReturnWords m"
    using sortAndReturnWords_mset[OF rel(4)] d by simp
  show ?thesis using rel E M by (simp add: matchTemplates_def matchWords_def r r')
qed

theorem match_order_independent_witness:
  "mset (rev (makeWordSet ''Free to use and share'')) = mset (makeWordSet ''Free to use and share'')
   \<and> list_all2 sameTemplate exampleTemplates exampleTemplates'
   \<and> validPositions exampleTemplates
   \<and> MatchResult.Score (matchWords (rev (makeWordSet ''Free to use and share'')) exampleTemplates')
       = MatchResult.Score (matchTemplates ''Free to use and share'' exampleTemplates)
   \<and> ExtraWords (matchWords (rev (makeWordSet ''Free to use and share'')) exampleTemplates')
       = ExtraWords (matchTemplates ''Free to use and share'' exampleTemplates)
   \<and> MissingWords (matchWords (rev (makeWordSet ''Free to use and share'')) exampleTemplates')
       = MissingWords (matchTemplates ''Free to use and share'' exampleTemplates)"
proof -
  have h1: "mset (rev (makeWordSet ''Free to use and share'')) = mset (makeWordSet ''Free to use and share'')"
    by simp
  have h2: "list_all2 sameTemplate exampleTemplates exampleTemplates'"
    by (simp add: exampleTemplates'_def exampleTemplates_def sameTemplate_def)
  have h3: "validPositions exampleTemplates"
    by (simp add: validPositions_def exampleTemplates_def)
  from match_order_independent[OF h1 h2 h3] h1 h2 h3 show ?thesis by simp
qed

section \<open>Copyright stripping (C6)\<close>

text \<open>Facts about the matches of \<open>reCopyright\<close>: a match ends at the end of a line.\<close>

lemma star_suffix: "r \<in> set (star P s) \<Longrightarrow> suffix r s"
  by (induction s) (auto simp: suffix_Cons split: if_splits)

lemma run_suffix: "r \<in> set (run re s) \<Longrightarrow> suffix r s"
proof (induction re arbitrary: r s)
  case (Class P)
  then show ?case by (auto simp: suffix_Cons split: list.splits if_splits)
next
  case (Lit l)
  then show ?case by (auto simp: suffix_drop split: if_splits)
next
  case (LitI l)
  then show ?case by (auto simp: suffix_drop split: if_splits)
next
  case (Cat a b)
  from Cat.prems obtain x where "x \<in> set (run a s)" "r \<in> set (run b x)" by auto
  then have "suffix x s" "suffix r x" using Cat.IH by blast+
  then show ?case using suffix_order.trans by blast
next
  case (Alt a b)
  then show ?case by auto
next
  case (Opt a)
  then show ?case by auto
next
  case (StarC P)
  then show ?case by (simp add: star_suffix)
qed

lemma star_nonempty: "star P s \<noteq> []"
  by (induction s) auto

lemma star_hd: "star P s = r # rs \<Longrightarrow> r = dropWhile P s"
proof (induction s arbitrary: r rs)
  case Nil
  then show ?case by simp
next
  case (Cons c cs)
  show ?case
  proof (cases "P c")
    case True
    obtain r' rs' where s: "star P cs = r' # rs'"
      using star_nonempty[of P cs] by (cases "star P cs") auto
    with Cons.prems True have "r = r'" by simp
    with Cons.IH[OF s] True show ?thesis by simp
  next
    case False
    with Cons.prems have "r = c # cs" by simp
    with False show ?thesis by simp
  qed
qed

lemma star_mem_dropWhile: "dropWhile P s \<in> set (star P s)"
  by (induction s) auto

lemma concat_hd:
  "concat xss = r # rs \<Longrightarrow> \<exists>xs \<in> set xss. \<exists>rs'. xs = r # rs'"
  by (induction xss) (auto simp: append_eq_Cons_conv)

lemma run_Cat_hd:
  assumes "run (Cat a b) s = r # rs"
  shows "\<exists>t rs'. run b t = r # rs'"
proof -
  from assms have "concat (map (run b) (run a s)) = r # rs" by simp
  from concat_hd[OF this] show ?thesis by auto
qed

lemma run_reCopyright_hd:
  assumes "run reCopyright s = r # rs"
  shows "r = [] \<or> hd r = CHR 0x0A"
proof -
  from assms obtain t1 rs1 where "run reNotice t1 = r # rs1"
    unfolding reCopyright_def using run_Cat_hd by blast
  then obtain t2 rs2 where
    "run (Cat (Opt reSign) (Cat (StarC isSpace) (Cat reYear (StarC notNewline)))) t2 = r # rs2"
    unfolding reNotice_def using run_Cat_hd by blast
  then obtain t3 rs3 where
    "run (Cat (StarC isSpace) (Cat reYear (StarC notNewline))) t3 = r # rs3"
    using run_Cat_hd by blast
  then obtain t4 rs4 where "run (Cat reYear (StarC notNewline)) t4 = r # rs4"
    using run_Cat_hd by blast
  then obtain t rs' where "run (StarC notNewline) t = r # rs'"
    using run_Cat_hd by blast
  then have "r = dropWhile notNewline t" using star_hd by simp
  then show ?thesis
    using hd_dropWhile[of notNewline t] by (auto simp: notNewline_def)
qed

lemma ciPrefix_take: "ciPrefix s = (map lowerByte (take 10 s) = ''copyright '')"
proof -
  have l: "length ''copyright '' = 10" by simp
  have m: "map lowerByte ''copyright '' = ''copyright ''" by code_simp
  show ?thesis unfolding ciPrefix_def run.simps l m by simp
qed

lemma ciPrefix_length: "ciPrefix s \<Longrightarrow> 10 \<le> length s"
proof -
  assume "ciPrefix s"
  then have "length (map lowerByte (take 10 s)) = length ''copyright ''"
    by (simp only: ciPrefix_take)
  then show ?thesis by simp
qed

lemma lowerByte_space: "isSpace c \<Longrightarrow> lowerByte c = c"
  unfolding isSpace_def by (elim disjE; hypsubst; code_simp)

lemma ciPrefix_not_space:
  assumes "ciPrefix (c # cs)"
  shows "\<not> isSpace c"
proof
  assume sp: "isSpace c"
  from assms have "map lowerByte (take 10 (c # cs)) = ''copyright ''" by (simp only: ciPrefix_take)
  then have "lowerByte c = CHR ''c''" by (simp add: take_Cons')
  with lowerByte_space[OF sp] have "c = CHR ''c''" by simp
  with sp show False by (simp add: isSpace_def)
qed

lemma star_ciPrefix:
  "t \<in> set (star isSpace s) \<Longrightarrow> ciPrefix t \<Longrightarrow> t = dropWhile isSpace s"
proof (induction s)
  case Nil
  then show ?case by simp
next
  case (Cons c cs)
  then show ?case using ciPrefix_not_space by (auto split: if_splits)
qed

lemma run_reNotice_ciPrefix:
  assumes "run reNotice t \<noteq> []"
  shows "ciPrefix t"
proof (rule ccontr)
  assume "\<not> ciPrefix t"
  then have "run (LitI ''copyright '') t = []" by (simp only: ciPrefix_def simp_thms)
  then have "run reNotice t = []" unfolding reNotice_def by (simp only: run.simps(4) list.map concat.simps)
  with assms show False by simp
qed

lemma run_reCopyright_nonempty:
  "(run reCopyright s \<noteq> []) = (run reNotice (dropWhile isSpace s) \<noteq> [])"
proof
  assume "run reCopyright s \<noteq> []"
  then obtain t where t: "t \<in> set (star isSpace s)" and n: "run reNotice t \<noteq> []"
    by (auto simp: reCopyright_def)
  from star_ciPrefix[OF t run_reNotice_ciPrefix[OF n]] n
  show "run reNotice (dropWhile isSpace s) \<noteq> []" by simp
next
  assume "run reNotice (dropWhile isSpace s) \<noteq> []"
  then show "run reCopyright s \<noteq> []"
    using star_mem_dropWhile[of isSpace s] by (auto simp: reCopyright_def)
qed

lemma run_reNotice_shorter:
  assumes "r \<in> set (run reNotice s)"
  shows "length r < length s"
proof -
  from assms have ne: "run reNotice s \<noteq> []" by auto
  have c: "ciPrefix s" by (rule run_reNotice_ciPrefix[OF ne])
  then have "run (LitI ''copyright '') s = [drop (length ''copyright '') s]"
    unfolding ciPrefix_def run.simps by (simp only: if_splits list.simps simp_thms split: if_splits)
  moreover have "length ''copyright '' = 10" by simp
  ultimately have t: "run (LitI ''copyright '') s = [drop 10 s]" by (simp only:)
  from assms have "r \<in> set (run (Cat (Opt reSign) (Cat (StarC isSpace) (Cat reYear (StarC notNewline)))) (drop 10 s))"
    unfolding reNotice_def by (simp only: run.simps(4) t list.map concat.simps append_Nil2)
  then have "length r \<le> length (drop 10 s)" using run_suffix suffix_length_le by blast
  then show ?thesis using ciPrefix_length[OF c] by simp
qed

lemma run_reCopyright_shorter:
  assumes "r \<in> set (run reCopyright s)"
  shows "length r < length s"
proof -
  from assms obtain t where t: "t \<in> set (star isSpace s)" and r: "r \<in> set (run reNotice t)"
    by (auto simp: reCopyright_def)
  have "length t \<le> length s" using star_suffix[OF t] by (rule suffix_length_le)
  then show ?thesis using run_reNotice_shorter[OF r] by simp
qed

lemma strip_nomatch:
  "run reCopyright (c # cs) = [] \<Longrightarrow>
     replaceAll reCopyright (c # cs) = c # replaceAll reCopyright cs"
  by simp

lemma strip_match:
  assumes "run reCopyright (c # cs) = rest # rs"
  shows "replaceAll reCopyright (c # cs) = replaceAll reCopyright rest"
proof -
  have "rest \<in> set (run reCopyright (c # cs))" using assms by simp
  from run_reCopyright_shorter[OF this] have "length rest \<le> length cs" by simp
  then show ?thesis using assms by simp
qed

lemma strip_lineEnd: "lineEnd t \<Longrightarrow> lineEnd (replaceAll reCopyright t)"
proof (induction t rule: length_induct)
  case (1 t)
  show ?case
  proof (cases t)
    case Nil
    then show ?thesis by (simp add: lineEnd_def)
  next
    case (Cons c cs)
    show ?thesis
    proof (cases "run reCopyright (c # cs)")
      case Nil
      then show ?thesis using "1.prems" Cons by (simp add: lineEnd_def)
    next
      case (Cons rest rs)
      have mem: "rest \<in> set (run reCopyright (c # cs))" using Cons by simp
      have sh: "length rest < length t" using run_reCopyright_shorter[OF mem] \<open>t = c # cs\<close> by simp
      have le: "lineEnd rest" using run_reCopyright_hd[OF Cons] by (simp add: lineEnd_def)
      from "1.IH" sh le have "lineEnd (replaceAll reCopyright rest)" by blast
      then show ?thesis using strip_match[OF Cons] \<open>t = c # cs\<close> by simp
    qed
  qed
qed

lemma lowerByte_nl: "lowerByte c = CHR 0x0A \<Longrightarrow> c = CHR 0x0A"
  by (auto simp: lowerByte_def split: option.splits if_splits)

lemma star_self: "s \<in> set (star P s)"
  by (cases s) auto

lemma star_decomp: "w \<in> set (star P u) \<Longrightarrow> \<exists>W. u = W @ w \<and> list_all P W"
proof (induction u)
  case Nil
  then show ?case by simp
next
  case (Cons c cs)
  show ?case
  proof (cases "w = c # cs")
    case True
    then show ?thesis by (intro exI[of _ "[]"]) simp
  next
    case False
    with Cons.prems have p: "P c" and m: "w \<in> set (star P cs)" by (auto split: if_splits)
    from Cons.IH[OF m] obtain W where "cs = W @ w" "list_all P W" by blast
    then show ?thesis using p by (intro exI[of _ "c # W"]) simp
  qed
qed

lemma star_append: "list_all P W \<Longrightarrow> x \<in> set (star P (W @ x))"
  by (induction W) (auto simp: star_self)

text \<open>
  A match depends only on the part of the text it covers: the same part matches before
  any other rest.
\<close>

lemma run_prefix:
  "u \<in> set (run re v) \<Longrightarrow>
     \<exists>p. v = p @ u \<and> (\<forall>x. x \<in> set (run re (p @ x))) \<and> (nlFree re \<longrightarrow> CHR 0x0A \<notin> set p)"
proof (induction re arbitrary: u v)
  case (Class P)
  then obtain c where v: "v = c # u" and p: "P c" by (auto split: list.splits if_splits)
  show ?case using v p by (intro exI[of _ "[c]"]) auto
next
  case (Lit l)
  then have t: "take (length l) v = l" and u: "u = drop (length l) v" by (auto split: if_splits)
  have v: "v = l @ u" using t u by (metis append_take_drop_id)
  show ?case using v by (intro exI[of _ l]) simp
next
  case (LitI l)
  then have t: "map lowerByte (take (length l) v) = map lowerByte l" and u: "u = drop (length l) v"
    by (auto split: if_splits)
  define p where "p = take (length l) v"
  have v: "v = p @ u" using u by (simp add: p_def)
  have len: "length p = length l" using t by (metis length_map p_def)
  have nl: "CHR 0x0A \<notin> set l \<longrightarrow> CHR 0x0A \<notin> set p"
  proof (intro impI notI)
    assume a: "CHR 0x0A \<notin> set l" and b: "CHR 0x0A \<in> set p"
    from b have "lowerByte (CHR 0x0A) \<in> set (map lowerByte p)" by simp
    then have "lowerByte (CHR 0x0A) \<in> set (map lowerByte l)" using t by (simp add: p_def)
    then obtain c where "c \<in> set l" "lowerByte c = lowerByte (CHR 0x0A)" by auto
    moreover have "lowerByte (CHR 0x0A) = CHR 0x0A" by code_simp
    ultimately show False using lowerByte_nl a by metis
  qed
  show ?case using v len t nl by (intro exI[of _ p]) (simp add: p_def)
next
  case (Cat a b)
  from Cat.prems obtain m where m: "m \<in> set (run a v)" and u: "u \<in> set (run b m)" by auto
  from Cat.IH(1)[OF m] obtain p where p: "v = p @ m" "\<forall>x. x \<in> set (run a (p @ x))"
    "nlFree a \<longrightarrow> CHR 0x0A \<notin> set p" by blast
  from Cat.IH(2)[OF u] obtain q where q: "m = q @ u" "\<forall>x. x \<in> set (run b (q @ x))"
    "nlFree b \<longrightarrow> CHR 0x0A \<notin> set q" by blast
  have "\<forall>x. x \<in> set (run (Cat a b) ((p @ q) @ x))"
  proof
    fix x
    have "q @ x \<in> set (run a (p @ q @ x))" using p(2) by blast
    moreover have "x \<in> set (run b (q @ x))" using q(2) by blast
    ultimately show "x \<in> set (run (Cat a b) ((p @ q) @ x))" by auto
  qed
  then show ?case using p q by (intro exI[of _ "p @ q"]) auto
next
  case (Alt a b)
  from Alt.prems have "u \<in> set (run a v) \<or> u \<in> set (run b v)" by auto
  then show ?case
  proof
    assume "u \<in> set (run a v)"
    from Alt.IH(1)[OF this] obtain p where "v = p @ u" "\<forall>x. x \<in> set (run a (p @ x))"
      "nlFree a \<longrightarrow> CHR 0x0A \<notin> set p" by blast
    then show ?thesis by (intro exI[of _ p]) auto
  next
    assume "u \<in> set (run b v)"
    from Alt.IH(2)[OF this] obtain p where "v = p @ u" "\<forall>x. x \<in> set (run b (p @ x))"
      "nlFree b \<longrightarrow> CHR 0x0A \<notin> set p" by blast
    then show ?thesis by (intro exI[of _ p]) auto
  qed
next
  case (Opt a)
  from Opt.prems have "u \<in> set (run a v) \<or> u = v" by auto
  then show ?case
  proof
    assume "u \<in> set (run a v)"
    from Opt.IH[OF this] obtain p where "v = p @ u" "\<forall>x. x \<in> set (run a (p @ x))"
      "nlFree a \<longrightarrow> CHR 0x0A \<notin> set p" by blast
    then show ?thesis by (intro exI[of _ p]) auto
  next
    assume "u = v"
    then show ?thesis by (intro exI[of _ "[]"]) auto
  qed
next
  case (StarC P)
  then have "u \<in> set (star P v)" by simp
  from star_decomp[OF this] obtain W where W: "v = W @ u" "list_all P W" by blast
  have "\<forall>x. x \<in> set (run (StarC P) (W @ x))" using star_append[OF W(2)] by simp
  moreover have "\<not> P (CHR 0x0A) \<longrightarrow> CHR 0x0A \<notin> set W" using W(2) by (auto simp: list_all_iff)
  ultimately show ?case using W(1) by (intro exI[of _ W]) auto
qed

lemma run_reCopyright_Nil: "run reCopyright [] = []"
proof (rule ccontr)
  assume "run reCopyright [] \<noteq> []"
  then obtain r where "r \<in> set (run reCopyright [])" by (cases "run reCopyright []") auto
  from run_reCopyright_shorter[OF this] show False by simp
qed

lemma match_space:
  assumes "isSpace w" "run reCopyright z \<noteq> []"
  shows "run reCopyright (w # z) \<noteq> []"
proof -
  have "dropWhile isSpace (w # z) = dropWhile isSpace z" using assms(1) by simp
  then show ?thesis using assms(2) run_reCopyright_nonempty[of z] run_reCopyright_nonempty[of "w # z"]
    by simp
qed

lemma notice_match: "run reNotice t \<noteq> [] \<Longrightarrow> run reCopyright t \<noteq> []"
proof -
  assume "run reNotice t \<noteq> []"
  then obtain r where "r \<in> set (run reNotice t)" by (cases "run reNotice t") auto
  then have "r \<in> set (run reCopyright t)"
    using star_self[of t isSpace] by (auto simp: reCopyright_def)
  then show ?thesis by auto
qed

text \<open>What the strip keeps before the first newline of its output stands in the input.\<close>

lemma strip_prefix:
  "replaceAll reCopyright t = p @ y \<Longrightarrow> CHR 0x0A \<notin> set p \<Longrightarrow>
     \<exists>t'. t = p @ t' \<and> replaceAll reCopyright t' = y
          \<and> (\<forall>j < length p. run reCopyright (drop j t) = [])"
proof (induction p arbitrary: t)
  case Nil
  then show ?case by simp
next
  case (Cons a p)
  from Cons.prems have a: "a \<noteq> CHR 0x0A" by auto
  from Cons.prems(1) obtain c cs where t: "t = c # cs" by (cases t) auto
  have nm: "run reCopyright (c # cs) = []"
  proof (cases "run reCopyright (c # cs)")
    case Nil
    then show ?thesis .
  next
    case (Cons rest rs)
    have le: "lineEnd rest" using run_reCopyright_hd[OF Cons] by (simp add: lineEnd_def)
    have "replaceAll reCopyright t = replaceAll reCopyright rest"
      using strip_match[OF Cons] t by simp
    with strip_lineEnd[OF le] Cons.prems(1) a show ?thesis by (simp add: lineEnd_def)
  qed
  then have eq: "replaceAll reCopyright t = c # replaceAll reCopyright cs" using t by simp
  with Cons.prems(1) have ca: "c = a" and r: "replaceAll reCopyright cs = p @ y" by simp_all
  from Cons.prems(2) have "CHR 0x0A \<notin> set p" by simp
  from Cons.IH[OF r this] obtain t' where t': "cs = p @ t'" "replaceAll reCopyright t' = y"
    "\<forall>j < length p. run reCopyright (drop j cs) = []" by blast
  have "\<forall>j < length (a # p). run reCopyright (drop j t) = []"
  proof (intro allI impI)
    fix j assume j: "j < length (a # p)"
    show "run reCopyright (drop j t) = []"
    proof (cases j)
      case 0
      then show ?thesis using nm t by simp
    next
      case (Suc j')
      then show ?thesis using t'(3) j t by simp
    qed
  qed
  then show ?case using t t' ca by (intro exI[of _ t']) simp
qed

lemma nlFree_reYear: "nlFree reYear"
  by (simp add: reYear_def isDigit_def)

lemma nlFree_reHead: "nlFree reHead"
  by (simp add: reHead_def reSign_def)

lemma nonempty_mem: "(xs \<noteq> []) = (\<exists>x. x \<in> set xs)"
  by (cases xs) auto

text \<open>White space and a year at the start of the output stand at the start of the input.\<close>

lemma strip_dated:
  "run reCopyright z = [] \<Longrightarrow> replaceAll reCopyright z = W @ y \<Longrightarrow> list_all isSpace W \<Longrightarrow>
     run reYear y \<noteq> [] \<Longrightarrow> \<exists>z'. z = W @ z' \<and> run reYear z' \<noteq> []"
proof (induction W arbitrary: z)
  case Nil
  from Nil.prems(4) obtain u where u: "u \<in> set (run reYear y)" by (auto simp: nonempty_mem)
  from run_prefix[OF u] nlFree_reYear obtain p where p: "y = p @ u"
    "\<forall>x. x \<in> set (run reYear (p @ x))" "CHR 0x0A \<notin> set p" by blast
  from Nil.prems(2) p(1) have "replaceAll reCopyright z = p @ u" by simp
  from strip_prefix[OF this p(3)] obtain t' where "z = p @ t'" by blast
  then have "t' \<in> set (run reYear z)" using p(2) by blast
  then show ?case by auto
next
  case (Cons w W)
  from Cons.prems(2) obtain c z1 where z: "z = c # z1" by (cases z) auto
  from Cons.prems(1) z have eq: "replaceAll reCopyright z = c # replaceAll reCopyright z1" by simp
  with Cons.prems(2) have cw: "c = w" and r: "replaceAll reCopyright z1 = W @ y" by simp_all
  from Cons.prems(3) have w: "isSpace w" and W: "list_all isSpace W" by simp_all
  have nm: "run reCopyright z1 = []"
    using match_space[OF w, of z1] Cons.prems(1) z cw by blast
  from Cons.IH[OF nm r W Cons.prems(4)] obtain z' where "z1 = W @ z'" "run reYear z' \<noteq> []" by blast
  then show ?case using z cw by (intro exI[of _ z']) simp
qed

lemma run_reNotice_iff:
  "(run reNotice y \<noteq> []) = (\<exists>u \<in> set (run reHead y). run reDated u \<noteq> [])"
proof -
  have "(run (Cat reYear (StarC notNewline)) w \<noteq> []) = (run reYear w \<noteq> [])" for w
    using star_nonempty[of notNewline] by (auto simp: nonempty_mem)
  then have "(run (Cat (StarC isSpace) (Cat reYear (StarC notNewline))) u \<noteq> [])
               = (run reDated u \<noteq> [])" for u
    by (auto simp: nonempty_mem reDated_def)
  then show ?thesis
    unfolding reNotice_def reHead_def by (auto simp: nonempty_mem)
qed

lemma run_reDated_iff:
  "(run reDated u \<noteq> []) = (\<exists>W w. u = W @ w \<and> list_all isSpace W \<and> run reYear w \<noteq> [])"
proof
  assume "run reDated u \<noteq> []"
  then obtain w where w: "w \<in> set (star isSpace u)" "run reYear w \<noteq> []"
    by (auto simp: reDated_def nonempty_mem)
  from star_decomp[OF w(1)] w(2) show "\<exists>W w. u = W @ w \<and> list_all isSpace W \<and> run reYear w \<noteq> []"
    by blast
next
  assume "\<exists>W w. u = W @ w \<and> list_all isSpace W \<and> run reYear w \<noteq> []"
  then obtain W w where "u = W @ w" "list_all isSpace W" "run reYear w \<noteq> []" by blast
  then show "run reDated u \<noteq> []"
    using star_append[of isSpace W w] by (auto simp: reDated_def nonempty_mem)
qed

lemma strip_skipFuel: "replaceAll reCopyright (skipFuel n t) = replaceAll reCopyright t"
proof (induction n arbitrary: t)
  case 0
  then show ?case by simp
next
  case (Suc n)
  show ?case
  proof (cases "run reCopyright t")
    case Nil
    then show ?thesis by simp
  next
    case (Cons rest rs)
    then obtain c cs where t: "t = c # cs" using run_reCopyright_Nil by (cases t) auto
    from strip_match[of c cs rest rs] Cons t have "replaceAll reCopyright t = replaceAll reCopyright rest"
      by simp
    then show ?thesis using Cons Suc.IH[of rest] by simp
  qed
qed

lemma skipFuel_nomatch: "length t \<le> n \<Longrightarrow> run reCopyright (skipFuel n t) = []"
proof (induction n arbitrary: t)
  case 0
  then show ?case by (simp add: run_reCopyright_Nil)
next
  case (Suc n)
  show ?case
  proof (cases "run reCopyright t")
    case Nil
    then show ?thesis by simp
  next
    case (Cons rest rs)
    then have "rest \<in> set (run reCopyright t)" by simp
    from run_reCopyright_shorter[OF this] Suc.prems have "length rest \<le> n" by simp
    from Suc.IH[OF this] Cons show ?thesis by simp
  qed
qed

lemma lowerByte_sp: "lowerByte c = CHR 0x20 \<Longrightarrow> c = CHR 0x20"
  by (auto simp: lowerByte_def split: option.splits if_splits)

lemma ciPrefix_space:
  assumes "ciPrefix y"
  shows "take 10 y = take 9 y @ [CHR 0x20]"
proof -
  have m: "map lowerByte (take 10 y) = ''copyright ''" using assms by (simp only: ciPrefix_take)
  have len: "10 \<le> length y" by (rule ciPrefix_length[OF assms])
  have "lowerByte (take 10 y ! 9) = map lowerByte (take 10 y) ! 9" using len by simp
  also have "\<dots> = CHR 0x20" unfolding m by simp
  finally have "take 10 y ! 9 = CHR 0x20" by (rule lowerByte_sp)
  then have "y ! 9 = CHR 0x20" by simp
  moreover have "take (Suc 9) y = take 9 y @ [y ! 9]" using len by (intro take_Suc_conv_app_nth) simp
  ultimately show ?thesis by simp
qed

lemma run_LitI_copyright:
  assumes "x \<in> set (run (LitI ''copyright '') y)"
  shows "ciPrefix y \<and> x = drop 10 y"
proof
  show "ciPrefix y" using assms unfolding ciPrefix_def by auto
  have l: "length ''copyright '' = 10" by simp
  have "x \<in> set (if map lowerByte (take 10 y) = map lowerByte ''copyright '' then [drop 10 y] else [])"
    using assms unfolding run.simps l .
  then show "x = drop 10 y"
    by (cases "map lowerByte (take 10 y) = map lowerByte ''copyright ''")
       (simp_all only: if_True if_False list.set insert_iff empty_iff simp_thms)
qed

text \<open>
  When the strip keeps the start of a text and its output nevertheless starts with a
  notice, the text starts with a signed \<open>copyright\<close> that dangles.
\<close>

lemma strip_new_notice:
  assumes nm: "run reCopyright t = []"
    and n: "run reNotice (replaceAll reCopyright t) \<noteq> []"
  shows "dangling t"
proof -
  define y where "y = replaceAll reCopyright t"
  from n obtain u where u: "u \<in> set (run reHead y)" and d: "run reDated u \<noteq> []"
    unfolding y_def run_reNotice_iff by blast
  from d obtain W w where W: "u = W @ w" "list_all isSpace W" "run reYear w \<noteq> []"
    unfolding run_reDated_iff by blast
  from run_prefix[OF u] nlFree_reHead obtain k where k: "y = k @ u"
    "\<forall>x. x \<in> set (run reHead (k @ x))" "CHR 0x0A \<notin> set k" by blast
  from strip_prefix[OF k(1)[unfolded y_def] k(3)] obtain t1 where t1: "t = k @ t1"
    "replaceAll reCopyright t1 = u" "\<forall>j < length k. run reCopyright (drop j t) = []" by blast
  show ?thesis
  proof (cases "run reCopyright t1 = []")
    case True
    from strip_dated[OF True t1(2)[unfolded W(1)] W(2,3)] obtain z' where
      "t1 = W @ z'" "run reYear z' \<noteq> []" by blast
    then have "run reDated t1 \<noteq> []" using W(2) unfolding run_reDated_iff by blast
    moreover have "t1 \<in> set (run reHead t)" using k(2) t1(1) by blast
    ultimately have "run reNotice t \<noteq> []" unfolding run_reNotice_iff by blast
    from notice_match[OF this] nm show ?thesis by simp
  next
    case False
    from u obtain x1 where x1: "x1 \<in> set (run (LitI ''copyright '') y)"
      and ux: "u \<in> set (run reSign x1) \<or> u = x1"
      unfolding reHead_def by auto
    from run_LitI_copyright[OF x1] have cp: "ciPrefix y" and xd: "x1 = drop 10 y" by simp_all
    from ux show ?thesis
    proof
      assume "u = x1"
      then have "y = take 10 y @ u" using xd by simp
      with k(1) have kk: "k = take 10 y" by (metis append_same_eq)
      then have kk': "k = take 9 y @ [CHR 0x20]" using ciPrefix_space[OF cp] by simp
      have l9: "length (take 9 y) = 9" using ciPrefix_length[OF cp] by simp
      have "9 < length k" using kk' l9 by simp
      then have "run reCopyright (drop 9 t) = []" using t1(3) by blast
      moreover have "drop 9 t = CHR 0x20 # t1" using t1(1) kk' l9 by simp
      moreover have "isSpace (CHR 0x20)" by (simp add: isSpace_def)
      ultimately show ?thesis using match_space[of "CHR 0x20" t1] False by simp
    next
      assume "u \<in> set (run reSign x1)"
      then have us: "u \<in> set (run reSigned y)" using x1 unfolding reSigned_def by auto
      from run_prefix[OF us] obtain k' where k': "y = k' @ u" "\<forall>x. x \<in> set (run reSigned (k' @ x))"
        by blast
      from k(1) k'(1) have "k' = k" by (metis append_same_eq)
      then have m: "t1 \<in> set (run reSigned t)" using k'(2) t1(1) by blast
      define z where "z = skipNotices t1"
      have zn: "run reCopyright z = []" unfolding z_def skipNotices_def by (rule skipFuel_nomatch) simp
      have zo: "replaceAll reCopyright z = W @ w"
        unfolding z_def skipNotices_def strip_skipFuel using t1(2) W(1) by simp
      from strip_dated[OF zn zo W(2,3)] obtain z' where "z = W @ z'" "run reYear z' \<noteq> []" by blast
      then have "run reDated z \<noteq> []" using W(2) unfolding run_reDated_iff by blast
      then show ?thesis using m False unfolding dangling_def z_def by (auto simp: list_ex_iff)
    qed
  qed
qed

lemma run_reNotice_Nil: "run reNotice [] = []"
proof (rule ccontr)
  assume "run reNotice [] \<noteq> []"
  then obtain r where "r \<in> set (run reNotice [])" by (cases "run reNotice []") auto
  from run_reNotice_shorter[OF this] show False by simp
qed

lemma hasNotice_suffix: "suffix t s \<Longrightarrow> run reNotice t \<noteq> [] \<Longrightarrow> hasNotice s"
  by (induction s) (auto simp: suffix_Cons run_reNotice_Nil)

lemma noDangling_suffix: "suffix t s \<Longrightarrow> noDangling s \<Longrightarrow> noDangling t"
  by (induction s) (auto simp: suffix_Cons)

lemma strip_fixed: "\<not> hasNotice y \<Longrightarrow> replaceAll reCopyright y = y"
proof (induction y)
  case Nil
  then show ?case by simp
next
  case (Cons c cs)
  have "run reCopyright (c # cs) = []"
  proof (rule ccontr)
    assume "run reCopyright (c # cs) \<noteq> []"
    then have "run reNotice (dropWhile isSpace (c # cs)) \<noteq> []"
      using run_reCopyright_nonempty[of "c # cs"] by blast
    from hasNotice_suffix[OF suffix_dropWhile this] Cons.prems show False by simp
  qed
  then show ?case using Cons by simp
qed

text \<open>After one strip of a text with no dangling \<open>copyright\<close> no notice is left.\<close>

lemma strip_no_notice: "noDangling s \<Longrightarrow> \<not> hasNotice (replaceAll reCopyright s)"
proof (induction s rule: length_induct)
  case (1 s)
  show ?case
  proof (cases s)
    case Nil
    then show ?thesis by simp
  next
    case (Cons c cs)
    show ?thesis
    proof (cases "run reCopyright (c # cs)")
      case Nil
      then have eq: "replaceAll reCopyright s = c # replaceAll reCopyright cs"
        using Cons by simp
      have "noDangling cs" using "1.prems" Cons by simp
      then have IH: "\<not> hasNotice (replaceAll reCopyright cs)" using "1.IH" Cons by simp
      have "run reNotice (replaceAll reCopyright s) = []"
      proof (rule ccontr)
        assume "run reNotice (replaceAll reCopyright s) \<noteq> []"
        from strip_new_notice[OF _ this] Nil Cons have "dangling s" by simp
        then show False using "1.prems" Cons by simp
      qed
      with IH eq show ?thesis by simp
    next
      case (Cons rest rs)
      have mem: "rest \<in> set (run reCopyright (c # cs))" using Cons by simp
      have sh: "length rest < length s"
        using run_reCopyright_shorter[OF mem] \<open>s = c # cs\<close> by simp
      have "suffix rest s" using run_suffix[OF mem] \<open>s = c # cs\<close> by simp
      then have "noDangling rest" using "1.prems" noDangling_suffix by blast
      with "1.IH" sh have "\<not> hasNotice (replaceAll reCopyright rest)" by blast
      then show ?thesis using strip_match[OF Cons] \<open>s = c # cs\<close> by simp
    qed
  qed
qed

lemma strip_twice: "noDangling s \<Longrightarrow> stripCopyright (stripCopyright s) = stripCopyright s"
  unfolding stripCopyright_def by (rule strip_fixed[OF strip_no_notice])

subsection \<open>UTF-8 round trip\<close>

text \<open>
  Decoding the encoding of a scalar value gives the value back, and every rune that
  \<open>DecodeRune\<close> returns is a scalar value.
\<close>

lemma of_char_int_bounds: "0 \<le> (of_char c :: int) \<and> (of_char c :: int) < 256"
proof -
  have "(of_char c :: int) = int (of_char c :: nat)" by (simp add: of_char_def)
  moreover have "(of_char c :: nat) < 256" by simp
  ultimately show ?thesis by simp
qed

lemma mod_shift: "0 \<le> (a::int) \<Longrightarrow> a < m \<Longrightarrow> (k * m + a) mod m = a"
  by simp

lemma digit64:
  fixes r :: int
  obtains q d where "r = q * 64 + d" "0 \<le> d" "d < 64" "r div 64 = q" "r mod 64 = d"
proof
  show "r = r div 64 * 64 + r mod 64" by simp
  show "0 \<le> r mod 64" "r mod 64 < 64" by simp_all
qed simp_all

lemma Decode2_raw:
  assumes "(of_char c0 :: int) = 0xC0 + a" "2 \<le> a" "a < 32"
    and "(of_char c1 :: int) = 0x80 + b" "0 \<le> b" "b < 64"
  shows "DecodeRune (c0 # c1 # x) = ((0xC0 + a) mod 32 * 64 + (0x80 + b) mod 64, 2)"
  using assms by (simp add: Let_def)

lemma Decode3_raw:
  assumes "(of_char c0 :: int) = 0xE0 + a" "0 \<le> a" "a < 16"
    and "(of_char c1 :: int) = 0x80 + b" "0 \<le> b" "b < 64"
    and "a = 0 \<longrightarrow> 32 \<le> b" "a = 13 \<longrightarrow> b < 32"
    and "(of_char c2 :: int) = 0x80 + c" "0 \<le> c" "c < 64"
  shows "DecodeRune (c0 # c1 # c2 # x)
           = ((0xE0 + a) mod 16 * 4096 + (0x80 + b) mod 64 * 64 + (0x80 + c) mod 64, 3)"
  using assms by (auto simp: Let_def)

lemma Decode4_raw:
  assumes "(of_char c0 :: int) = 0xF0 + a" "0 \<le> a" "a \<le> 4"
    and "(of_char c1 :: int) = 0x80 + b" "0 \<le> b" "b < 64"
    and "a = 0 \<longrightarrow> 16 \<le> b" "a = 4 \<longrightarrow> b < 16"
    and "(of_char c2 :: int) = 0x80 + c" "0 \<le> c" "c < 64"
    and "(of_char c3 :: int) = 0x80 + d" "0 \<le> d" "d < 64"
  shows "DecodeRune (c0 # c1 # c2 # c3 # x)
           = ((0xF0 + a) mod 8 * 262144 + (0x80 + b) mod 64 * 4096
                + (0x80 + c) mod 64 * 64 + (0x80 + d) mod 64, 4)"
  using assms by (auto simp: Let_def)

lemma of_char_char_of: "0 \<le> n \<Longrightarrow> n < 256 \<Longrightarrow> (of_char (char_of (n::int)) :: int) = n"
  by simp

lemma digits3: "(r::int) = q1 * 64 + d0 \<Longrightarrow> q1 = q2 * 64 + d1 \<Longrightarrow> q2 * 4096 + d1 * 64 + d0 = r"
  by simp

lemma digits4:
  "(r::int) = q1 * 64 + d0 \<Longrightarrow> q1 = q2 * 64 + d1 \<Longrightarrow> q2 = q3 * 64 + d2 \<Longrightarrow>
     q3 * 262144 + d2 * 4096 + d1 * 64 + d0 = r"
  by simp

lemma mod_lead2: "0 \<le> (a::int) \<Longrightarrow> a < 32 \<Longrightarrow> (0xC0 + a) mod 32 = a"
  using mod_shift[of a 32 6] by simp

lemma mod_cont: "0 \<le> (a::int) \<Longrightarrow> a < 64 \<Longrightarrow> (0x80 + a) mod 64 = a"
  using mod_shift[of a 64 2] by simp

lemma mod_lead3: "0 \<le> (a::int) \<Longrightarrow> a < 16 \<Longrightarrow> (0xE0 + a) mod 16 = a"
  using mod_shift[of a 16 14] by simp

lemma mod_lead4: "0 \<le> (a::int) \<Longrightarrow> a < 8 \<Longrightarrow> (0xF0 + a) mod 8 = a"
  using mod_shift[of a 8 30] by simp

lemma Encode1:
  assumes "0 \<le> r" "r < 0x80"
  shows "EncodeRune r = [char_of r]"
  using assms by (simp add: EncodeRune_def)

lemma Decode_Encode1:
  assumes "0 \<le> r" "r < 0x80"
  shows "DecodeRune (EncodeRune r @ x) = (r, 1)"
  using assms by (simp add: EncodeRune_def)

lemma Encode2:
  assumes "0x80 \<le> r" "r < 0x800"
  obtains a b where "EncodeRune r = [char_of (0xC0 + a), char_of (0x80 + b)]"
    "2 \<le> a" "a < 32" "0 \<le> b" "b < 64" "r = a * 64 + b"
proof -
  obtain a b where ab: "r = a * 64 + b" "0 \<le> b" "b < 64" "r div 64 = a" "r mod 64 = b"
    by (rule digit64)
  have a: "2 \<le> a" "a < 32" using assms ab(1,2,3) by simp_all
  have "EncodeRune r = [char_of (0xC0 + a), char_of (0x80 + b)]"
    using assms by (simp add: EncodeRune_def ab(4,5))
  then show ?thesis using that a ab by blast
qed

lemma Decode_Encode2:
  assumes "0x80 \<le> r" "r < 0x800"
  shows "DecodeRune (EncodeRune r @ x) = (r, 2)"
proof -
  from Encode2[OF assms] obtain a b where e: "EncodeRune r = [char_of (0xC0 + a), char_of (0x80 + b)]"
    and a: "2 \<le> a" "a < 32" and b: "0 \<le> b" "b < 64" and r: "r = a * 64 + b"
    by blast
  have p0: "(of_char (char_of (0xC0 + a)) :: int) = 0xC0 + a" using a by (intro of_char_char_of) simp_all
  have b1: "(of_char (char_of (0x80 + b)) :: int) = 0x80 + b" using b by (intro of_char_char_of) simp_all
  have "DecodeRune (char_of (0xC0 + a) # char_of (0x80 + b) # x)
          = ((0xC0 + a) mod 32 * 64 + (0x80 + b) mod 64, 2)"
    by (rule Decode2_raw[OF p0 a b1 b])
  moreover have "(0xC0 + a) mod 32 = a" using a by (intro mod_lead2) simp_all
  moreover have "(0x80 + b) mod 64 = b" using b by (intro mod_cont)
  ultimately show ?thesis using e r by simp
qed

lemma div4096: "(r::int) div 4096 = r div 64 div 64"
proof -
  have "r div (64 * 64) = r div 64 div 64" by (rule zdiv_zmult2_eq) simp
  then show ?thesis by simp
qed

lemma div262144: "(r::int) div 262144 = r div 64 div 64 div 64"
proof -
  have "r div (4096 * 64) = r div 4096 div 64" by (rule zdiv_zmult2_eq) simp
  then show ?thesis by (simp add: div4096)
qed

lemma Encode3:
  assumes "0x800 \<le> r" "r < 0x10000" "\<not> (0xD800 \<le> r \<and> r \<le> 0xDFFF)"
  obtains a b c where
    "EncodeRune r = [char_of (0xE0 + a), char_of (0x80 + b), char_of (0x80 + c)]"
    "0 \<le> a" "a < 16" "0 \<le> b" "b < 64" "0 \<le> c" "c < 64"
    "a = 0 \<longrightarrow> 32 \<le> b" "a = 13 \<longrightarrow> b < 32" "a * 4096 + b * 64 + c = r"
proof -
  obtain q1 c where 1: "r = q1 * 64 + c" "0 \<le> c" "c < 64" "r div 64 = q1" "r mod 64 = c"
    by (rule digit64)
  obtain a b where 2: "q1 = a * 64 + b" "0 \<le> b" "b < 64" "q1 div 64 = a" "q1 mod 64 = b"
    by (rule digit64)
  have r: "a * 4096 + b * 64 + c = r" by (rule digits3[OF 1(1) 2(1)])
  have a: "0 \<le> a" "a < 16" using assms(1,2) r 1(2,3) 2(2,3) by simp_all
  have a0: "a = 0 \<longrightarrow> 32 \<le> b" using assms(1) r 1(2,3) 2(2,3) by auto
  have a13: "a = 13 \<longrightarrow> b < 32" using assms(3) r 1(2,3) 2(2,3) by auto
  have d: "r div 4096 = a" "r div 64 mod 64 = b" by (simp_all add: div4096 1(4) 2(4,5))
  have "EncodeRune r = [char_of (0xE0 + a), char_of (0x80 + b), char_of (0x80 + c)]"
    using assms by (auto simp: EncodeRune_def MaxRune_def d 1(5))
  then show ?thesis using that a a0 a13 r 1(2,3) 2(2,3) by blast
qed

lemma Decode_Encode3:
  assumes "0x800 \<le> r" "r < 0x10000" "\<not> (0xD800 \<le> r \<and> r \<le> 0xDFFF)"
  shows "DecodeRune (EncodeRune r @ x) = (r, 3)"
proof -
  from Encode3[OF assms] obtain a b c where
    e: "EncodeRune r = [char_of (0xE0 + a), char_of (0x80 + b), char_of (0x80 + c)]"
    and a: "0 \<le> a" "a < 16" and b: "0 \<le> b" "b < 64" and c: "0 \<le> c" "c < 64"
    and g: "a = 0 \<longrightarrow> 32 \<le> b" "a = 13 \<longrightarrow> b < 32" and r: "a * 4096 + b * 64 + c = r"
    by blast
  have p0: "(of_char (char_of (0xE0 + a)) :: int) = 0xE0 + a" using a by (intro of_char_char_of) simp_all
  have b1: "(of_char (char_of (0x80 + b)) :: int) = 0x80 + b" using b by (intro of_char_char_of) simp_all
  have b2: "(of_char (char_of (0x80 + c)) :: int) = 0x80 + c" using c by (intro of_char_char_of) simp_all
  have "DecodeRune (char_of (0xE0 + a) # char_of (0x80 + b) # char_of (0x80 + c) # x)
          = ((0xE0 + a) mod 16 * 4096 + (0x80 + b) mod 64 * 64 + (0x80 + c) mod 64, 3)"
    by (rule Decode3_raw[OF p0 a b1 b g b2 c])
  moreover have "(0xE0 + a) mod 16 = a" using a by (intro mod_lead3)
  moreover have "(0x80 + b) mod 64 = b" using b by (intro mod_cont)
  moreover have "(0x80 + c) mod 64 = c" using c by (intro mod_cont)
  ultimately show ?thesis using e r by simp
qed

lemma Encode4:
  assumes "0x10000 \<le> r" "r \<le> 0x10FFFF"
  obtains a b c d where
    "EncodeRune r = [char_of (0xF0 + a), char_of (0x80 + b), char_of (0x80 + c), char_of (0x80 + d)]"
    "0 \<le> a" "a \<le> 4" "0 \<le> b" "b < 64" "0 \<le> c" "c < 64" "0 \<le> d" "d < 64"
    "a = 0 \<longrightarrow> 16 \<le> b" "a = 4 \<longrightarrow> b < 16" "a * 262144 + b * 4096 + c * 64 + d = r"
proof -
  obtain q1 d where 1: "r = q1 * 64 + d" "0 \<le> d" "d < 64" "r div 64 = q1" "r mod 64 = d"
    by (rule digit64)
  obtain q2 c where 2: "q1 = q2 * 64 + c" "0 \<le> c" "c < 64" "q1 div 64 = q2" "q1 mod 64 = c"
    by (rule digit64)
  obtain a b where 3: "q2 = a * 64 + b" "0 \<le> b" "b < 64" "q2 div 64 = a" "q2 mod 64 = b"
    by (rule digit64)
  have r: "a * 262144 + b * 4096 + c * 64 + d = r" by (rule digits4[OF 1(1) 2(1) 3(1)])
  have a: "0 \<le> a" "a \<le> 4" using assms r 1(2,3) 2(2,3) 3(2,3) by simp_all
  have a0: "a = 0 \<longrightarrow> 16 \<le> b" using assms(1) r 1(2,3) 2(2,3) 3(2,3) by auto
  have a4: "a = 4 \<longrightarrow> b < 16" using assms(2) r 1(2,3) 2(2,3) 3(2,3) by auto
  have dv: "r div 262144 = a" "r div 4096 mod 64 = b" "r div 64 mod 64 = c"
    by (simp_all add: div262144 div4096 1(4) 2(4,5) 3(4,5))
  have "EncodeRune r = [char_of (0xF0 + a), char_of (0x80 + b), char_of (0x80 + c), char_of (0x80 + d)]"
    using assms by (auto simp: EncodeRune_def MaxRune_def dv 1(5))
  then show ?thesis using that a a0 a4 r 1(2,3) 2(2,3) 3(2,3) by blast
qed

lemma Decode_Encode4:
  assumes "0x10000 \<le> r" "r \<le> 0x10FFFF"
  shows "DecodeRune (EncodeRune r @ x) = (r, 4)"
proof -
  from Encode4[OF assms] obtain a b c d where
    e: "EncodeRune r = [char_of (0xF0 + a), char_of (0x80 + b), char_of (0x80 + c), char_of (0x80 + d)]"
    and a: "0 \<le> a" "a \<le> 4" and b: "0 \<le> b" "b < 64" and c: "0 \<le> c" "c < 64"
    and d: "0 \<le> d" "d < 64"
    and g: "a = 0 \<longrightarrow> 16 \<le> b" "a = 4 \<longrightarrow> b < 16"
    and r: "a * 262144 + b * 4096 + c * 64 + d = r"
    by blast
  have p0: "(of_char (char_of (0xF0 + a)) :: int) = 0xF0 + a" using a by (intro of_char_char_of) simp_all
  have b1: "(of_char (char_of (0x80 + b)) :: int) = 0x80 + b" using b by (intro of_char_char_of) simp_all
  have b2: "(of_char (char_of (0x80 + c)) :: int) = 0x80 + c" using c by (intro of_char_char_of) simp_all
  have b3: "(of_char (char_of (0x80 + d)) :: int) = 0x80 + d" using d by (intro of_char_char_of) simp_all
  have "DecodeRune (char_of (0xF0 + a) # char_of (0x80 + b) # char_of (0x80 + c) # char_of (0x80 + d) # x)
          = ((0xF0 + a) mod 8 * 262144 + (0x80 + b) mod 64 * 4096
               + (0x80 + c) mod 64 * 64 + (0x80 + d) mod 64, 4)"
    by (rule Decode4_raw[OF p0 a b1 b g b2 c b3 d])
  moreover have "(0xF0 + a) mod 8 = a" using a by (intro mod_lead4) simp_all
  moreover have "(0x80 + b) mod 64 = b" using b by (intro mod_cont)
  moreover have "(0x80 + c) mod 64 = c" using c by (intro mod_cont)
  moreover have "(0x80 + d) mod 64 = d" using d by (intro mod_cont)
  ultimately show ?thesis using e r by simp
qed

lemma Decode_Encode:
  assumes "validRune r"
  shows "DecodeRune (EncodeRune r @ x) = (r, length (EncodeRune r))"
proof -
  consider "r < 0x80" | "0x80 \<le> r" "r < 0x800" | "0x800 \<le> r" "r < 0x10000" | "0x10000 \<le> r"
    by linarith
  then show ?thesis
  proof cases
    case 1
    then show ?thesis using assms Decode_Encode1[of r x] Encode1[of r] by (simp add: validRune_def)
  next
    case 2
    then show ?thesis using Decode_Encode2[OF 2, of x] Encode2[OF 2] by (metis length_Cons list.size(3) numeral_2_eq_2)
  next
    case 3
    have ns: "\<not> (0xD800 \<le> r \<and> r \<le> 0xDFFF)" using assms by (simp add: validRune_def)
    obtain a b c where "EncodeRune r = [a, b, c]" using Encode3[OF 3 ns] by metis
    then show ?thesis using Decode_Encode3[OF 3 ns, of x] by simp
  next
    case 4
    have le: "r \<le> 0x10FFFF" using assms by (simp add: validRune_def MaxRune_def)
    obtain a b c d where "EncodeRune r = [a, b, c, d]" using Encode4[OF 4 le] by metis
    then show ?thesis using Decode_Encode4[OF 4 le, of x] by simp
  qed
qed

lemma valid_two: "0 \<le> A \<Longrightarrow> A < 32 \<Longrightarrow> 0 \<le> B \<Longrightarrow> B < 64 \<Longrightarrow> validRune (A * 64 + B)"
  by (simp add: validRune_def MaxRune_def)

lemma valid_three:
  assumes "0 \<le> A" "A < 16" "0 \<le> B" "B < 64" "0 \<le> C" "C < 64" "A = 13 \<longrightarrow> B < 32"
  shows "validRune (A * 4096 + B * 64 + C)"
proof -
  consider "A \<le> 12" | "A = 13" | "14 \<le> A" by linarith
  then show ?thesis
    by cases (use assms in \<open>simp_all add: validRune_def MaxRune_def\<close>)
qed

lemma valid_four:
  assumes "0 \<le> A" "A \<le> 4" "0 \<le> B" "B < 64" "0 \<le> C" "C < 64" "0 \<le> D" "D < 64"
    and "A = 0 \<longrightarrow> 16 \<le> B" "A = 4 \<longrightarrow> B < 16"
  shows "validRune (A * 262144 + B * 4096 + C * 64 + D)"
proof -
  consider "A = 0" | "1 \<le> A" "A \<le> 3" | "A = 4" using assms(1,2) by linarith
  then show ?thesis
    by cases (use assms in \<open>simp_all add: validRune_def MaxRune_def\<close>)
qed

lemma validRune_RuneError: "validRune RuneError"
  by (simp add: validRune_def RuneError_def MaxRune_def)

lemma DecodeRune_valid: "validRune (fst (DecodeRune s))"
proof (cases s)
  case Nil
  then show ?thesis by (simp add: validRune_RuneError)
next
  case (Cons c0 cs)
  define p0 where "p0 = (of_char c0 :: int)"
  have p0b: "0 \<le> p0" "p0 < 256" using of_char_int_bounds[of c0] by (simp_all add: p0_def)
  consider (a) "p0 < 0x80" | (b) "0x80 \<le> p0" "p0 < 0xC2 \<or> 0xF4 < p0" | (c) "0xC2 \<le> p0" "p0 < 0xE0"
    | (d) "0xE0 \<le> p0" "p0 < 0xF0" | (e) "0xF0 \<le> p0" "p0 \<le> 0xF4"
    by linarith
  then show ?thesis
  proof cases
    case a
    then show ?thesis using Cons p0b by (simp add: p0_def validRune_def MaxRune_def)
  next
    case b
    then have "DecodeRune s = (RuneError, 1)" using Cons by (auto simp: p0_def Let_def)
    then show ?thesis by (simp add: validRune_RuneError)
  next
    case c
    show ?thesis
    proof (cases cs)
      case Nil
      then have "DecodeRune s = (RuneError, 1)" using Cons c by (auto simp: p0_def Let_def)
      then show ?thesis by (simp add: validRune_RuneError)
    next
      case (Cons c1 cs1)
      define b1 where "b1 = (of_char c1 :: int)"
      show ?thesis
      proof (cases "b1 < 0x80 \<or> 0xBF < b1")
        case True
        then have "DecodeRune s = (RuneError, 1)"
          using Cons \<open>s = c0 # cs\<close> c by (auto simp: p0_def b1_def Let_def)
        then show ?thesis by (simp add: validRune_RuneError)
      next
        case False
        have 1: "(of_char c0 :: int) = 0xC0 + (p0 - 0xC0)" by (simp add: p0_def)
        have 2: "(of_char c1 :: int) = 0x80 + (b1 - 0x80)" by (simp add: b1_def)
        have a: "2 \<le> p0 - 0xC0" "p0 - 0xC0 < 32" using c by simp_all
        have b: "0 \<le> b1 - 0x80" "b1 - 0x80 < 64" using False by simp_all
        have "DecodeRune (c0 # c1 # cs1)
                = ((0xC0 + (p0 - 0xC0)) mod 32 * 64 + (0x80 + (b1 - 0x80)) mod 64, 2)"
          by (rule Decode2_raw[OF 1 a 2 b])
        moreover have "(0xC0 + (p0 - 0xC0)) mod 32 = p0 - 0xC0" using a by (intro mod_lead2) simp_all
        moreover have "(0x80 + (b1 - 0x80)) mod 64 = b1 - 0x80" using b by (intro mod_cont)
        ultimately have "fst (DecodeRune s) = (p0 - 0xC0) * 64 + (b1 - 0x80)"
          using Cons \<open>s = c0 # cs\<close> by simp
        moreover have "validRune ((p0 - 0xC0) * 64 + (b1 - 0x80))"
          using a b by (intro valid_two) simp_all
        ultimately show ?thesis by simp
      qed
    qed
  next
    case d
    show ?thesis
    proof (cases cs)
      case Nil
      then have "DecodeRune s = (RuneError, 1)" using Cons d by (auto simp: p0_def Let_def)
      then show ?thesis by (simp add: validRune_RuneError)
    next
      case (Cons c1 cs1)
      note cs = Cons
      define b1 where "b1 = (of_char c1 :: int)"
      show ?thesis
      proof (cases "(if p0 = 0xE0 then 0xA0 else 0x80) \<le> b1 \<and> b1 \<le> (if p0 = 0xED then 0x9F else 0xBF)")
        case False
        then have "DecodeRune s = (RuneError, 1)"
          using cs \<open>s = c0 # cs\<close> d by (auto simp: p0_def b1_def Let_def split: if_splits)
        then show ?thesis by (simp add: validRune_RuneError)
      next
        case True
        note ok1 = True
        show ?thesis
        proof (cases cs1)
          case Nil
          then have "DecodeRune s = (RuneError, 1)"
            using cs \<open>s = c0 # cs\<close> d by (auto simp: p0_def Let_def)
          then show ?thesis by (simp add: validRune_RuneError)
        next
          case (Cons c2 cs2)
          define b2 where "b2 = (of_char c2 :: int)"
          show ?thesis
          proof (cases "b2 < 0x80 \<or> 0xBF < b2")
            case True
            then have "DecodeRune s = (RuneError, 1)"
              using Cons cs \<open>s = c0 # cs\<close> d by (auto simp: p0_def b2_def Let_def)
            then show ?thesis by (simp add: validRune_RuneError)
          next
            case False
            have 1: "(of_char c0 :: int) = 0xE0 + (p0 - 0xE0)" by (simp add: p0_def)
            have 2: "(of_char c1 :: int) = 0x80 + (b1 - 0x80)" by (simp add: b1_def)
            have 3: "(of_char c2 :: int) = 0x80 + (b2 - 0x80)" by (simp add: b2_def)
            have a: "0 \<le> p0 - 0xE0" "p0 - 0xE0 < 16" using d by simp_all
            have b: "0 \<le> b1 - 0x80" "b1 - 0x80 < 64" using ok1 by (simp_all split: if_splits)
            have c: "0 \<le> b2 - 0x80" "b2 - 0x80 < 64" using False by simp_all
            have g: "p0 - 0xE0 = 0 \<longrightarrow> 32 \<le> b1 - 0x80" "p0 - 0xE0 = 13 \<longrightarrow> b1 - 0x80 < 32"
              using ok1 by (simp_all split: if_splits)
            have "DecodeRune (c0 # c1 # c2 # cs2)
                    = ((0xE0 + (p0 - 0xE0)) mod 16 * 4096 + (0x80 + (b1 - 0x80)) mod 64 * 64
                         + (0x80 + (b2 - 0x80)) mod 64, 3)"
              by (rule Decode3_raw[OF 1 a 2 b g 3 c])
            moreover have "(0xE0 + (p0 - 0xE0)) mod 16 = p0 - 0xE0" using a by (intro mod_lead3)
            moreover have "(0x80 + (b1 - 0x80)) mod 64 = b1 - 0x80" using b by (intro mod_cont)
            moreover have "(0x80 + (b2 - 0x80)) mod 64 = b2 - 0x80" using c by (intro mod_cont)
            ultimately have "fst (DecodeRune s)
                               = (p0 - 0xE0) * 4096 + (b1 - 0x80) * 64 + (b2 - 0x80)"
              using Cons cs \<open>s = c0 # cs\<close> by simp
            moreover have "validRune ((p0 - 0xE0) * 4096 + (b1 - 0x80) * 64 + (b2 - 0x80))"
              by (rule valid_three[OF a b c g(2)])
            ultimately show ?thesis by simp
          qed
        qed
      qed
    qed
  next
    case e
    show ?thesis
    proof (cases cs)
      case Nil
      then have "DecodeRune s = (RuneError, 1)" using Cons e by (auto simp: p0_def Let_def)
      then show ?thesis by (simp add: validRune_RuneError)
    next
      case (Cons c1 cs1)
      note cs = Cons
      define b1 where "b1 = (of_char c1 :: int)"
      show ?thesis
      proof (cases "(if p0 = 0xF0 then 0x90 else 0x80) \<le> b1 \<and> b1 \<le> (if p0 = 0xF4 then 0x8F else 0xBF)")
        case False
        then have "DecodeRune s = (RuneError, 1)"
          using cs \<open>s = c0 # cs\<close> e by (auto simp: p0_def b1_def Let_def split: if_splits)
        then show ?thesis by (simp add: validRune_RuneError)
      next
        case True
        note ok1 = True
        show ?thesis
        proof (cases cs1)
          case Nil
          then have "DecodeRune s = (RuneError, 1)"
            using cs \<open>s = c0 # cs\<close> e by (auto simp: p0_def Let_def)
          then show ?thesis by (simp add: validRune_RuneError)
        next
          case (Cons c2 cs2)
          note cs1 = Cons
          define b2 where "b2 = (of_char c2 :: int)"
          show ?thesis
          proof (cases "b2 < 0x80 \<or> 0xBF < b2")
            case True
            then have "DecodeRune s = (RuneError, 1)"
              using cs1 cs \<open>s = c0 # cs\<close> e by (auto simp: p0_def b2_def Let_def)
            then show ?thesis by (simp add: validRune_RuneError)
          next
            case False
            note ok2 = False
            show ?thesis
            proof (cases cs2)
              case Nil
              then have "DecodeRune s = (RuneError, 1)"
                using cs1 cs \<open>s = c0 # cs\<close> e by (auto simp: p0_def Let_def)
              then show ?thesis by (simp add: validRune_RuneError)
            next
              case (Cons c3 cs3)
              define b3 where "b3 = (of_char c3 :: int)"
              show ?thesis
              proof (cases "b3 < 0x80 \<or> 0xBF < b3")
                case True
                then have "DecodeRune s = (RuneError, 1)"
                  using Cons cs1 cs \<open>s = c0 # cs\<close> e by (auto simp: p0_def b3_def Let_def)
                then show ?thesis by (simp add: validRune_RuneError)
              next
                case False
                have 1: "(of_char c0 :: int) = 0xF0 + (p0 - 0xF0)" by (simp add: p0_def)
                have 2: "(of_char c1 :: int) = 0x80 + (b1 - 0x80)" by (simp add: b1_def)
                have 3: "(of_char c2 :: int) = 0x80 + (b2 - 0x80)" by (simp add: b2_def)
                have 4: "(of_char c3 :: int) = 0x80 + (b3 - 0x80)" by (simp add: b3_def)
                have a: "0 \<le> p0 - 0xF0" "p0 - 0xF0 \<le> 4" using e by simp_all
                have b: "0 \<le> b1 - 0x80" "b1 - 0x80 < 64" using ok1 by (simp_all split: if_splits)
                have c: "0 \<le> b2 - 0x80" "b2 - 0x80 < 64" using ok2 by simp_all
                have dd: "0 \<le> b3 - 0x80" "b3 - 0x80 < 64" using False by simp_all
                have g: "p0 - 0xF0 = 0 \<longrightarrow> 16 \<le> b1 - 0x80" "p0 - 0xF0 = 4 \<longrightarrow> b1 - 0x80 < 16"
                  using ok1 by (simp_all split: if_splits)
                have "DecodeRune (c0 # c1 # c2 # c3 # cs3)
                        = ((0xF0 + (p0 - 0xF0)) mod 8 * 262144 + (0x80 + (b1 - 0x80)) mod 64 * 4096
                             + (0x80 + (b2 - 0x80)) mod 64 * 64 + (0x80 + (b3 - 0x80)) mod 64, 4)"
                  by (rule Decode4_raw[OF 1 a 2 b g 3 c 4 dd])
                moreover have "(0xF0 + (p0 - 0xF0)) mod 8 = p0 - 0xF0" using a by (intro mod_lead4) simp_all
                moreover have "(0x80 + (b1 - 0x80)) mod 64 = b1 - 0x80" using b by (intro mod_cont)
                moreover have "(0x80 + (b2 - 0x80)) mod 64 = b2 - 0x80" using c by (intro mod_cont)
                moreover have "(0x80 + (b3 - 0x80)) mod 64 = b3 - 0x80" using dd by (intro mod_cont)
                ultimately have "fst (DecodeRune s)
                    = (p0 - 0xF0) * 262144 + (b1 - 0x80) * 4096 + (b2 - 0x80) * 64 + (b3 - 0x80)"
                  using Cons cs1 cs \<open>s = c0 # cs\<close> by simp
                moreover have "validRune ((p0 - 0xF0) * 262144 + (b1 - 0x80) * 4096
                                   + (b2 - 0x80) * 64 + (b3 - 0x80))"
                  by (rule valid_four[OF a b c dd g])
                ultimately show ?thesis by simp
              qed
            qed
          qed
        qed
      qed
    qed
  qed
qed

text \<open>
  In a table that passes the checks, the lower-case mapping of a rune above ASCII is a
  scalar value, not an ASCII capital, and a fixed point of the mapping.
\<close>

lemma ascending_tail: "ascending (e # es) \<Longrightarrow> ascending es"
  by (cases e; cases es) auto

lemma ascending_head:
  "ascending ((lo, hi, d) # es) \<Longrightarrow> (lo2, hi2, d2) \<in> set es \<Longrightarrow> hi < lo2"
proof (induction es arbitrary: lo hi d)
  case Nil
  then show ?case by simp
next
  case (Cons e es)
  obtain lo1 hi1 d1 where e: "e = (lo1, hi1, d1)" by (cases e) auto
  from Cons.prems(1) e have 1: "lo \<le> hi" "hi < lo1" "ascending ((lo1, hi1, d1) # es)" by simp_all
  show ?case
  proof (cases "(lo2, hi2, d2) = e")
    case True
    then show ?thesis using 1 e by simp
  next
    case False
    then have m: "(lo2, hi2, d2) \<in> set es" using Cons.prems(2) by simp
    from Cons.IH[OF 1(3) this] have "hi1 < lo2" by simp
    moreover have "lo1 \<le> hi1" using 1(3) m by (cases es) auto
    ultimately show ?thesis using 1 by simp
  qed
qed

lemma find_ascending:
  "ascending T \<Longrightarrow> e \<in> set T \<Longrightarrow> inRange r e \<Longrightarrow> find (inRange r) T = Some e"
proof (induction T)
  case Nil
  then show ?case by simp
next
  case (Cons e1 T)
  obtain lo1 hi1 d1 where e1: "e1 = (lo1, hi1, d1)" by (cases e1) auto
  obtain lo hi d where e: "e = (lo, hi, d)" by (cases e) auto
  show ?case
  proof (cases "e = e1")
    case True
    then show ?thesis using Cons.prems(3) by simp
  next
    case False
    then have mem: "e \<in> set T" using Cons.prems(2) by simp
    from ascending_head[of lo1 hi1 d1 T lo hi d] Cons.prems(1) mem e1 e
    have "hi1 < lo" by simp
    then have "\<not> inRange r e1" using Cons.prems(3) e e1 by (simp add: inRange_def)
    then show ?thesis using Cons.IH[OF ascending_tail mem Cons.prems(3)] Cons.prems(1) by simp
  qed
qed

lemma upperLower_arith:
  fixes x H :: int
  assumes "0 \<le> x" "x \<le> H" "H mod 2 = 1"
  shows "x div 2 * 2 + 1 \<le> H" "0 < x div 2 * 2 + 1" "(x div 2 * 2 + 1) div 2 * 2 + 1 = x div 2 * 2 + 1"
  using assms by presburger+

lemma to_fixed:
  assumes chk: "list_all (checkRange T) T" and asc: "ascending T"
    and r: "validRune r" "0x7F < r"
  shows "validRune (to T r) \<and> \<not> (0x41 \<le> to T r \<and> to T r \<le> 0x5A)
         \<and> (0x7F < to T r \<longrightarrow> to T (to T r) = to T r)"
proof (cases "find (inRange r) T")
  case None
  then have "to T r = r" by (simp add: to_def)
  then show ?thesis using r by simp
next
  case (Some e)
  obtain lo hi delta where e: "e = (lo, hi, delta)" by (cases e) auto
  from Some have mem: "e \<in> set T" and inr: "inRange r e"
    by (auto simp: find_Some_iff)
  have lohi: "lo \<le> r" "r \<le> hi" using inr e by (simp_all add: inRange_def)
  have ce: "checkRange T (lo, hi, delta)" using chk mem e by (simp add: list_all_iff)
  show ?thesis
  proof (cases "MaxRune < delta")
    case True
    define r' where "r' = lo + ((r - lo) div 2 * 2 + 1)"
    have t: "to T r = r'" using Some e True by (simp add: to_def r'_def)
    from ce True have u: "0x7F < lo" "hi \<le> MaxRune" "hi < 0xD800 \<or> 0xDFFF < lo" "(hi - lo) mod 2 = 1"
      by (simp_all add: checkRange_def)
    have x: "0 \<le> r - lo" "r - lo \<le> hi - lo" using lohi by simp_all
    note ar = upperLower_arith[OF x u(4)]
    have b: "lo < r'" "r' \<le> hi" using ar(1,2) by (simp_all add: r'_def)
    have v: "validRune r'" using b u by (auto simp: validRune_def MaxRune_def)
    have "inRange r' e" using b e by (simp add: inRange_def)
    from find_ascending[OF asc mem this] have "to T r' = lo + ((r' - lo) div 2 * 2 + 1)"
      using e True by (simp add: to_def)
    also have "\<dots> = r'" using ar(3) by (simp add: r'_def)
    finally show ?thesis using t v b u(1) by simp
  next
    case False
    define r' where "r' = r + delta"
    have t: "to T r = r'" using Some e False by (simp add: to_def r'_def)
    from ce False have ci: "checkImage T (lo + delta) (hi + delta)" by (simp add: checkRange_def)
    have b: "lo + delta \<le> r'" "r' \<le> hi + delta" using lohi by (simp_all add: r'_def)
    have v: "validRune r'" using ci b by (auto simp: checkImage_def validRune_def)
    have nu: "\<not> (0x41 \<le> r' \<and> r' \<le> 0x5A)" using ci b by (auto simp: checkImage_def)
    have "\<forall>e2 \<in> set T. \<not> inRange r' e2"
      using ci b by (auto simp: checkImage_def list_all_iff inRange_def)
    then have "find (inRange r') T = None" by (simp add: find_None_iff)
    then have "to T r' = r'" by (simp add: to_def)
    then show ?thesis using t v nu by simp
  qed
qed

subsection \<open>Lower case is kept by the strip\<close>

text \<open>
  The output of \<open>ToLower\<close> is the encoding of runes that \<open>unicode.ToLower\<close> leaves as they
  are, and \<open>ToLower\<close> leaves such a text as it is.
\<close>

lemma check_caseRanges: "list_all (checkRange caseRanges) caseRanges"
  by (simp add: caseRanges_def checkRange_def checkImage_def MaxRune_def UpperLower_def)

lemma ascending_caseRanges: "ascending caseRanges"
  by code_simp

lemma unicode_ToLower_fixed:
  assumes "validRune r"
  shows "validRune (unicode_ToLower r) \<and> unicode_ToLower (unicode_ToLower r) = unicode_ToLower r"
proof (cases "r \<le> 0x7F")
  case True
  then show ?thesis using assms by (auto simp: unicode_ToLower_def validRune_def MaxRune_def)
next
  case False
  then have r: "0x7F < r" by simp
  define r' where "r' = to caseRanges r"
  from to_fixed[OF check_caseRanges ascending_caseRanges assms r]
  have v: "validRune r'" and nu: "\<not> (0x41 \<le> r' \<and> r' \<le> 0x5A)"
    and fx: "0x7F < r' \<longrightarrow> to caseRanges r' = r'"
    by (simp_all add: r'_def)
  have l: "unicode_ToLower r = r'" using False by (simp add: unicode_ToLower_def r'_def)
  have "unicode_ToLower r' = r'" using nu fx by (auto simp: unicode_ToLower_def)
  then show ?thesis using l v by simp
qed

lemma EncodeRune_nonempty: "EncodeRune r \<noteq> []"
  by (simp add: EncodeRune_def)

lemma Map_Encode:
  assumes "validRune r" "0 \<le> f r"
  shows "Map f (EncodeRune r @ x) = EncodeRune (f r) @ Map f x"
proof -
  obtain c cs where e: "EncodeRune r = c # cs" using EncodeRune_nonempty[of r] by (cases "EncodeRune r") auto
  have d: "DecodeRune (c # cs @ x) = (r, length (c # cs))"
    using Decode_Encode[OF assms(1), of x] e by simp
  show ?thesis using assms(2) unfolding e by (simp only: append_Cons Map.simps d) simp
qed

lemma Map_encoded: "lowered rs \<Longrightarrow> Map unicode_ToLower (encoded rs) = encoded rs"
proof (induction rs)
  case Nil
  then show ?case by (simp add: encoded_def)
next
  case (Cons r rs)
  then have v: "validRune r" and f: "unicode_ToLower r = r" and l: "lowered rs"
    by (simp_all add: lowered_def)
  have "0 \<le> unicode_ToLower r" using v f by (simp add: validRune_def)
  from Map_Encode[of r unicode_ToLower "encoded rs", OF v this]
  show ?case using Cons.IH[OF l] f by (simp add: encoded_def)
qed

lemma Map_is_encoded: "\<exists>rs. lowered rs \<and> Map unicode_ToLower s = encoded rs"
proof (induction s rule: length_induct)
  case (1 s)
  show ?case
  proof (cases s)
    case Nil
    then show ?thesis by (intro exI[of _ "[]"]) (simp add: lowered_def encoded_def)
  next
    case (Cons c cs)
    obtain r wid where d: "DecodeRune (c # cs) = (r, wid)" by (cases "DecodeRune (c # cs)") auto
    have "validRune r" using DecodeRune_valid[of "c # cs"] d by simp
    from unicode_ToLower_fixed[OF this] have v: "validRune (unicode_ToLower r)"
      and f: "unicode_ToLower (unicode_ToLower r) = unicode_ToLower r" by simp_all
    have "length (drop (wid - 1) cs) < length s" using Cons by simp
    with "1.IH" obtain rs where rs: "lowered rs"
      "Map unicode_ToLower (drop (wid - 1) cs) = encoded rs" by blast
    have nn: "0 \<le> unicode_ToLower r" using v by (simp add: validRune_def)
    have "Map unicode_ToLower s = encoded (unicode_ToLower r # rs)"
      using Cons d nn rs(2) by (simp add: encoded_def)
    moreover have "lowered (unicode_ToLower r # rs)" using rs(1) v f by (simp add: lowered_def)
    ultimately show ?thesis by blast
  qed
qed

lemma ToLower_fixed: "ToLower (ToLower s) = ToLower s"
  using Map_is_encoded[of s] Map_encoded by (auto simp: ToLower_def)

text \<open>
  A match of \<open>reCopyright\<close> starts at an ASCII byte and ends before a newline or at the end
  of the text; in UTF-8 both are boundaries of runes, so the strip deletes whole runes.
\<close>

lemma EncodeRune_bytes:
  assumes "validRune r"
  shows "(r < 0x80 \<and> EncodeRune r = [char_of r])
       \<or> (0x80 \<le> r \<and> (\<forall>c \<in> set (EncodeRune r). 0x80 \<le> (of_char c :: int)))"
proof -
  consider "r < 0x80" | "0x80 \<le> r" "r < 0x800" | "0x800 \<le> r" "r < 0x10000" | "0x10000 \<le> r"
    by linarith
  then show ?thesis
  proof cases
    case 1
    then show ?thesis using assms Encode1[of r] by (simp add: validRune_def)
  next
    case 2
    from Encode2[OF 2] obtain a b :: int where "EncodeRune r = [char_of (0xC0 + a), char_of (0x80 + b)]"
      "2 \<le> a" "a < 32" "0 \<le> b" "b < 64" by metis
    then show ?thesis using 2(1) by simp
  next
    case 3
    have ns: "\<not> (0xD800 \<le> r \<and> r \<le> 0xDFFF)" using assms by (simp add: validRune_def)
    from Encode3[OF 3 ns] obtain a b c :: int where
      "EncodeRune r = [char_of (0xE0 + a), char_of (0x80 + b), char_of (0x80 + c)]"
      "0 \<le> a" "a < 16" "0 \<le> b" "b < 64" "0 \<le> c" "c < 64" by metis
    then show ?thesis using 3(1) by simp
  next
    case 4
    have le: "r \<le> 0x10FFFF" using assms by (simp add: validRune_def MaxRune_def)
    from Encode4[OF 4 le] obtain a b c d :: int where
      "EncodeRune r = [char_of (0xF0 + a), char_of (0x80 + b), char_of (0x80 + c), char_of (0x80 + d)]"
      "0 \<le> a" "a \<le> 4" "0 \<le> b" "b < 64" "0 \<le> c" "c < 64" "0 \<le> d" "d < 64" by metis
    then show ?thesis using 4 by simp
  qed
qed

lemma lowerByte_c: "lowerByte c = CHR ''c'' \<Longrightarrow> c = CHR ''c'' \<or> c = CHR ''C''"
  by (auto simp: lowerByte_def split: option.splits if_splits)

lemma match_ascii:
  assumes "run reCopyright (c # cs) \<noteq> []"
  shows "(of_char c :: int) < 0x80"
proof (cases "isSpace c")
  case True
  then show ?thesis by (auto simp: isSpace_def)
next
  case False
  then have "dropWhile isSpace (c # cs) = c # cs" by simp
  then have "run reNotice (c # cs) \<noteq> []" using assms run_reCopyright_nonempty[of "c # cs"] by simp
  then have "ciPrefix (c # cs)" by (rule run_reNotice_ciPrefix)
  then have "map lowerByte (take 10 (c # cs)) = ''copyright ''" by (simp only: ciPrefix_take)
  then have "lowerByte c = CHR ''c''" by (simp add: take_Cons')
  from lowerByte_c[OF this] show ?thesis by auto
qed

lemma strip_high:
  "\<forall>c \<in> set p. 0x80 \<le> (of_char c :: int) \<Longrightarrow>
     replaceAll reCopyright (p @ z) = p @ replaceAll reCopyright z"
proof (induction p)
  case Nil
  then show ?case by simp
next
  case (Cons c p)
  have "run reCopyright (c # p @ z) = []"
  proof (rule ccontr)
    assume "run reCopyright (c # p @ z) \<noteq> []"
    from match_ascii[OF this] Cons.prems show False by simp
  qed
  then show ?case using Cons by simp
qed

lemma encoded_aligned:
  "encoded rs = a @ b # x \<Longrightarrow> (of_char b :: int) < 0x80 \<Longrightarrow> list_all validRune rs \<Longrightarrow>
     \<exists>rs1 rs2. rs = rs1 @ rs2 \<and> a = encoded rs1 \<and> b # x = encoded rs2"
proof (induction rs arbitrary: a)
  case Nil
  then show ?case by (simp add: encoded_def)
next
  case (Cons r rs)
  from Cons.prems(3) have v: "validRune r" and vs: "list_all validRune rs" by simp_all
  from Cons.prems(1) have eq: "EncodeRune r @ encoded rs = a @ b # x" by (simp add: encoded_def)
  then obtain us where us: "(EncodeRune r = a @ us \<and> us @ encoded rs = b # x)
                            \<or> (EncodeRune r @ us = a \<and> encoded rs = us @ b # x)"
    by (auto simp: append_eq_append_conv2)
  then show ?case
  proof
    assume 1: "EncodeRune r = a @ us \<and> us @ encoded rs = b # x"
    show ?thesis
    proof (cases us)
      case Nil
      then have "a = encoded [r]" "b # x = encoded rs" using 1 by (simp_all add: encoded_def)
      then show ?thesis by (intro exI[of _ "[r]"] exI[of _ rs]) simp
    next
      case (Cons u us')
      then have bu: "b = u" using 1 by simp
      show ?thesis
      proof (cases a)
        case Nil
        then have "b # x = encoded (r # rs)" using eq by (simp add: encoded_def)
        then show ?thesis using Nil by (intro exI[of _ "[]"] exI[of _ "r # rs"]) (simp add: encoded_def)
      next
        case (Cons a0 a')
        then have "2 \<le> length (EncodeRune r)" "b \<in> set (EncodeRune r)"
          using 1 \<open>us = u # us'\<close> bu by simp_all
        with EncodeRune_bytes[OF v] Cons.prems(2) show ?thesis by auto
      qed
    qed
  next
    assume 2: "EncodeRune r @ us = a \<and> encoded rs = us @ b # x"
    from Cons.IH[OF _ Cons.prems(2) vs, of us] 2 obtain rs1 rs2 where
      "rs = rs1 @ rs2" "us = encoded rs1" "b # x = encoded rs2" by blast
    then show ?thesis using 2
      by (intro exI[of _ "r # rs1"] exI[of _ rs2]) (simp add: encoded_def)
  qed
qed

lemma lowered_valid: "lowered rs \<Longrightarrow> list_all validRune rs"
  by (simp add: lowered_def list_all_iff)

lemma strip_encoded:
  "lowered rs \<Longrightarrow> y = encoded rs \<Longrightarrow> \<exists>rs'. lowered rs' \<and> replaceAll reCopyright y = encoded rs'"
proof (induction y arbitrary: rs rule: length_induct)
  case (1 y)
  show ?case
  proof (cases rs)
    case Nil
    then show ?thesis using "1.prems" by (intro exI[of _ "[]"]) (simp add: encoded_def)
  next
    case (Cons r rs0)
    have v: "validRune r" and f: "unicode_ToLower r = r" and l0: "lowered rs0"
      using "1.prems"(1) Cons by (simp_all add: lowered_def)
    have y: "y = EncodeRune r @ encoded rs0" using "1.prems"(2) Cons by (simp add: encoded_def)
    have sh0: "length (encoded rs0) < length y" using y EncodeRune_nonempty[of r] by simp
    from "1.IH" sh0 l0 obtain rs0' where rs0': "lowered rs0'"
      "replaceAll reCopyright (encoded rs0) = encoded rs0'" by blast
    have keep: "lowered (r # rs0')" "EncodeRune r @ encoded rs0' = encoded (r # rs0')"
      using rs0'(1) v f by (simp_all add: lowered_def encoded_def)
    from EncodeRune_bytes[OF v] show ?thesis
    proof
      assume "0x80 \<le> r \<and> (\<forall>c \<in> set (EncodeRune r). 0x80 \<le> (of_char c :: int))"
      then have "replaceAll reCopyright y = EncodeRune r @ replaceAll reCopyright (encoded rs0)"
        unfolding y by (intro strip_high) simp
      then show ?thesis using rs0'(2) keep by metis
    next
      assume "r < 0x80 \<and> EncodeRune r = [char_of r]"
      then have yc: "y = char_of r # encoded rs0" using y by simp
      show ?thesis
      proof (cases "run reCopyright (char_of r # encoded rs0)")
        case Nil
        then have "replaceAll reCopyright y = char_of r # replaceAll reCopyright (encoded rs0)"
          using yc by simp
        then show ?thesis using rs0'(2) keep \<open>r < 0x80 \<and> EncodeRune r = [char_of r]\<close> by (metis append_Cons append_Nil)
      next
        case (Cons rest rs1)
        have mem: "rest \<in> set (run reCopyright (char_of r # encoded rs0))" using Cons by simp
        have sh: "length rest < length y" using run_reCopyright_shorter[OF mem] yc by simp
        have su: "suffix rest y" using run_suffix[OF mem] yc by simp
        have eq: "replaceAll reCopyright y = replaceAll reCopyright rest"
          using strip_match[OF Cons] yc by simp
        show ?thesis
        proof (cases rest)
          case Nil
          then show ?thesis using eq by (intro exI[of _ "[]"]) (simp add: lowered_def encoded_def)
        next
          case (Cons b x)
          have "b = CHR 0x0A" using run_reCopyright_hd[OF \<open>run reCopyright (char_of r # encoded rs0) = rest # rs1\<close>] Cons
            by simp
          then have ba: "(of_char b :: int) < 0x80" by simp
          from su obtain a where "y = a @ rest" by (auto simp: suffix_def)
          then have "encoded rs = a @ b # x" using "1.prems"(2) Cons by simp
          from encoded_aligned[OF this ba lowered_valid[OF "1.prems"(1)]] obtain rs1' rs2 where
            s: "rs = rs1' @ rs2" "b # x = encoded rs2" by blast
          have "lowered rs2" using "1.prems"(1) s(1) by (simp add: lowered_def)
          with "1.IH" sh s(2) Cons obtain rs' where "lowered rs'"
            "replaceAll reCopyright rest = encoded rs'" by metis
          then show ?thesis using eq by metis
        qed
      qed
    qed
  qed
qed

lemma ToLower_strip:
  "ToLower (stripCopyright (ToLower data)) = stripCopyright (ToLower data)"
proof -
  obtain rs where rs: "lowered rs" "ToLower data = encoded rs"
    using Map_is_encoded[of data] by (auto simp: ToLower_def)
  from strip_encoded[OF rs(1) rs(2)] obtain rs' where "lowered rs'"
    "stripCopyright (ToLower data) = encoded rs'" by (auto simp: stripCopyright_def)
  then show ?thesis using Map_encoded by (simp add: ToLower_def)
qed

lemma clean_twice:
  assumes "noDangling (ToLower data)"
  shows "cleanLicenseData (cleanLicenseData data) = cleanLicenseData data"
  unfolding cleanLicenseData_def ToLower_strip by (rule strip_twice[OF assms])

lemma TestCleanLicenseData: "cleanLicenseData testData = testWanted"
  by code_simp

lemma ToLower_examples:
  "ToLower [CHR 0xC4, CHR 0xB0, CHR 0xE2, CHR 0x84, CHR 0xAA, CHR 0xC3, CHR 0x89, CHR 0xFF]
     = [CHR ''i'', CHR ''k'', CHR 0xC3, CHR 0xA9, CHR 0xEF, CHR 0xBF, CHR 0xBD]"
  by code_simp

text \<open>
  Claim C6 says that stripping twice is stripping once. It is not: a \<open>Copyright (c)\<close>
  with no year, followed by a notice and then by a line that starts with a year, loses
  the notice in the first pass; what is left is itself a notice, and the second pass
  deletes it.
\<close>

theorem strip_not_idempotent:
  "stripCopyright (ToLower danglingNotice) = ''copyright (c)\<newline>2013 bar''
   \<and> stripCopyright (stripCopyright (ToLower danglingNotice)) = []
   \<and> cleanLicenseData danglingNotice = ''copyright (c)\<newline>2013 bar''
   \<and> cleanLicenseData (cleanLicenseData danglingNotice) = []
   \<and> dangling (ToLower danglingNotice)"
  by code_simp

text \<open>
  Claim C6, as the code has it: stripping twice is stripping once on every text with no
  dangling \<open>copyright\<close>, that is, in which no \<open>copyright \<close> with a sign is directly
  followed by notices that the strip deletes and then by white space and a year. The
  same holds of \<open>cleanLicenseData\<close>, which lowers the case before it strips.
\<close>

theorem strip_idempotent:
  "(noDangling s \<longrightarrow> stripCopyright (stripCopyright s) = stripCopyright s)
   \<and> (noDangling (ToLower data) \<longrightarrow>
        cleanLicenseData (cleanLicenseData data) = cleanLicenseData data)"
  using strip_twice clean_twice by blast

text \<open>
  The hypothesis holds of a text that speaks of the \<open>copyright notice\<close> and has a notice
  without a year.
\<close>

theorem strip_idempotent_witness:
  "noDangling (ToLower noticeText)
   \<and> cleanLicenseData noticeText = noticeWanted
   \<and> stripCopyright (stripCopyright (ToLower noticeText)) = stripCopyright (ToLower noticeText)
   \<and> cleanLicenseData (cleanLicenseData noticeText) = cleanLicenseData noticeText"
proof -
  have h: "noDangling (ToLower noticeText)" by code_simp
  have w: "cleanLicenseData noticeText = noticeWanted" by code_simp
  from strip_idempotent[of "ToLower noticeText" noticeText] h w show ?thesis by simp
qed

section \<open>Templates without front matter (C10)\<close>

lemma makeWordSet_Nil: "makeWordSet [] = []"
  by code_simp

lemma parseLoop_no_delimiter:
  assumes "\<forall>l \<in> set tokens. TrimSpace l \<noteq> ''---''"
  shows "foldl (\<lambda>st token. parseLine token st) (0, [], [], []) tokens = (0, [], [], [])"
  using assms by (induction tokens) simp_all

lemma snd_scanLines_None:
  "\<forall>l \<in> set ls. int (length l) < MaxScanTokenSize \<Longrightarrow> snd (scanLines ls) = None"
  by (induction ls) (auto split: prod.splits)

text \<open>
  Claim C10: on a text with no line that trims to \<open>---\<close>, \<open>parseTemplate\<close> returns a
  template with empty title, empty nickname and empty word set; the error it returns is
  the scanner's, and there is none when every line fits the scanner's buffer.
\<close>

theorem parseTemplate_no_delimiter:
  assumes "\<forall>l \<in> set (fst (scanLines (rawLines content))). TrimSpace l \<noteq> ''---''"
  shows "fst (parseTemplate content) = \<lparr>Title = [], Nickname = [], Words = []\<rparr>
       \<and> snd (parseTemplate content) = snd (scanLines (rawLines content))
       \<and> ((\<forall>l \<in> set (rawLines content). int (length l) < MaxScanTokenSize)
            \<longrightarrow> snd (parseTemplate content) = None)"
proof -
  obtain tokens err where sc: "scanLines (rawLines content) = (tokens, err)"
    by (cases "scanLines (rawLines content)") auto
  have "foldl (\<lambda>st token. parseLine token st) (0, [], [], []) tokens = (0, [], [], [])"
    using parseLoop_no_delimiter assms sc by simp
  then have p: "parseTemplate content = (\<lparr>Title = [], Nickname = [], Words = []\<rparr>, err)"
    by (simp add: parseTemplate_def sc makeWordSet_Nil)
  show ?thesis using p sc snd_scanLines_None[of "rawLines content"] by auto
qed

theorem parseTemplate_no_delimiter_witness:
  "list_all (\<lambda>l. TrimSpace l \<noteq> ''---'') (fst (scanLines (rawLines plainText)))
   \<and> parseTemplate plainText = (\<lparr>Title = [], Nickname = [], Words = []\<rparr>, None)"
proof -
  have sc: "scanLines (rawLines plainText) = ([''Free to use'', ''title: Free'', ''-- -''], None)"
    by code_simp
  have h: "list_all (\<lambda>l. TrimSpace l \<noteq> ''---'') (fst (scanLines (rawLines plainText)))"
    unfolding sc by code_simp
  then have "\<forall>l \<in> set (fst (scanLines (rawLines plainText))). TrimSpace l \<noteq> ''---''"
    by (simp only: list_all_iff)
  from parseTemplate_no_delimiter[OF this] h sc show ?thesis
    by (simp add: prod_eq_iff)
qed

text \<open>The word maps \<open>parseTemplate\<close> builds have distinct keys and distinct positions.\<close>

lemma parseTemplate_valid:
  "validTemplates [fst (parseTemplate content)] \<and> validPositions [fst (parseTemplate content)]"
  by (simp add: parseTemplate_def validTemplates_def validPositions_def
      makeWordSet_distinct_keys makeWordSet_distinct_pos split: prod.splits)

lemma parseTemplate_sample:
  "parseTemplate sampleTemplate =
     (\<lparr>Title = ''Tiny License'', Nickname = ''Tiny'',
       Words = [(''free'', 0), (''to'', 1), (''use'', 2), (''it'', 4)]\<rparr>, None)"
  by code_simp

section \<open>The upward walk ends (C9)\<close>

lemma slashes_Nil: "slashes [] = 0"
  by (simp add: slashes_def)

lemma slashes_Cons: "slashes (c # cs) = (if c = CHR ''/'' then Suc (slashes cs) else slashes cs)"
  by (simp add: slashes_def)

lemma slashes_append: "slashes (a @ b) = slashes a + slashes b"
  by (simp add: slashes_def)

lemma slashes_0: "CHR ''/'' \<notin> set x \<Longrightarrow> slashes x = 0"
  by (induction x) (auto simp: slashes_Nil slashes_Cons)

lemma slashes_pos: "CHR ''/'' \<in> set x \<Longrightarrow> 0 < slashes x"
  by (induction x) (auto simp: slashes_Cons)

lemma length_splitFrom: "length (splitFrom cur s) = Suc (slashes s)"
  by (induction s arbitrary: cur) (simp_all add: slashes_Nil slashes_Cons)

lemma length_Split: "length (Split s) = Suc (slashes s)"
  by (simp add: Split_def length_splitFrom)

lemma splitFrom_nonempty: "splitFrom cur s \<noteq> []"
  using length_splitFrom[of cur s] by auto

lemma splitFrom_no_slash:
  "CHR ''/'' \<notin> set cur \<Longrightarrow> \<forall>x \<in> set (splitFrom cur s). CHR ''/'' \<notin> set x"
proof (induction s arbitrary: cur)
  case Nil
  then show ?case by simp
next
  case (Cons c cs)
  show ?case
  proof (cases "c = CHR ''/''")
    case True
    have "\<forall>x \<in> set (splitFrom [] cs). CHR ''/'' \<notin> set x" by (rule Cons.IH) simp
    then show ?thesis using True Cons.prems by simp
  next
    case False
    have "\<forall>x \<in> set (splitFrom (cur @ [c]) cs). CHR ''/'' \<notin> set x"
      by (rule Cons.IH) (use False Cons.prems in auto)
    then show ?thesis using False by simp
  qed
qed

lemma Split_no_slash: "\<forall>x \<in> set (Split s). CHR ''/'' \<notin> set x"
  using splitFrom_no_slash[of "[]" s] by (simp add: Split_def)

lemma splitFrom_weight:
  "sum_list (map (\<lambda>x. Suc (length x)) (splitFrom cur s)) = Suc (length cur + length s)"
  by (induction s arbitrary: cur) simp_all

lemma splitFrom_last: "last (splitFrom cur (t @ ''/'')) = []"
  by (induction t arbitrary: cur) (simp_all add: splitFrom_nonempty)

lemma Split_snoc_slash: "Split (t @ ''/'') = butlast (Split (t @ ''/'')) @ [[]]"
proof -
  have "Split (t @ ''/'') \<noteq> []" by (simp add: Split_def splitFrom_nonempty)
  moreover have "last (Split (t @ ''/'')) = []" by (simp add: Split_def splitFrom_last)
  ultimately show ?thesis by (metis append_butlast_last_id)
qed

text \<open>A bound for any additive measure of the stack.\<close>

lemma cleanStep_measure:
  fixes g :: "string \<Rightarrow> nat"
  shows "sum_list (map g (cleanStep r st part))
           \<le> sum_list (map g st) + (if part = [] then 0 else g part)"
proof (cases "part = [] \<or> part = ''.''")
  case True
  then show ?thesis by (auto simp: cleanStep_def)
next
  case False
  show ?thesis
  proof (cases "part = ''..''")
    case True
    then show ?thesis by (cases st) (simp_all add: cleanStep_def)
  next
    case False
    with \<open>\<not> (part = [] \<or> part = ''.'')\<close> show ?thesis by (simp add: cleanStep_def)
  qed
qed

lemma foldl_cleanStep_measure:
  fixes g :: "string \<Rightarrow> nat"
  shows "sum_list (map g (foldl (cleanStep r) st parts))
     \<le> sum_list (map g st) + sum_list (map g (filter (\<lambda>x. x \<noteq> []) parts))"
proof (induction parts arbitrary: st)
  case Nil
  then show ?case by simp
next
  case (Cons part parts)
  have "sum_list (map g (foldl (cleanStep r) (cleanStep r st part) parts))
          \<le> sum_list (map g (cleanStep r st part)) + sum_list (map g (filter (\<lambda>x. x \<noteq> []) parts))"
    by (rule Cons.IH)
  moreover have "sum_list (map g (cleanStep r st part))
                 \<le> sum_list (map g st) + (if part = [] then 0 else g part)"
    by (rule cleanStep_measure)
  ultimately show ?case by (cases "part = []") simp_all
qed

lemma cleanStep_elems:
  assumes "goodElems st" "CHR ''/'' \<notin> set part"
  shows "goodElems (cleanStep r st part)"
proof (cases "part = [] \<or> part = ''.''")
  case True
  then show ?thesis using assms by (auto simp: cleanStep_def)
next
  case False
  show ?thesis
  proof (cases "part = ''..''")
    case True
    then show ?thesis using assms by (cases st) (simp_all add: cleanStep_def goodElems_def)
  next
    case False
    with \<open>\<not> (part = [] \<or> part = ''.'')\<close> show ?thesis
      using assms by (simp add: cleanStep_def goodElems_def)
  qed
qed

lemma foldl_cleanStep_elems:
  assumes "goodElems st" "\<forall>p \<in> set parts. CHR ''/'' \<notin> set p"
  shows "goodElems (foldl (cleanStep r) st parts)"
  using assms
proof (induction parts arbitrary: st)
  case Nil
  then show ?case by simp
next
  case (Cons part parts)
  have "goodElems (cleanStep r st part)"
    by (rule cleanStep_elems) (use Cons.prems in simp_all)
  then show ?case using Cons.IH Cons.prems(2) by simp
qed

lemma length_Join:
  "xs \<noteq> [] \<Longrightarrow> Suc (length (Join xs)) = sum_list (map (\<lambda>x. Suc (length x)) xs)"
  by (induction xs rule: Join.induct) simp_all

lemma slashes_Join:
  "xs \<noteq> [] \<Longrightarrow> goodElems xs \<Longrightarrow> Suc (slashes (Join xs)) = length xs"
proof (induction xs rule: Join.induct)
  case 1
  then show ?case by simp
next
  case (2 x)
  then show ?case by (simp add: slashes_0 goodElems_def)
next
  case (3 x y ys)
  then have "Suc (slashes (Join (y # ys))) = length (y # ys)" by (simp add: goodElems_def)
  moreover have "slashes x = 0" using 3 by (simp add: slashes_0 goodElems_def)
  ultimately show ?case by (simp add: slashes_append slashes_Cons)
qed

lemma hd_Join:
  "xs \<noteq> [] \<Longrightarrow> goodElems xs \<Longrightarrow> Join xs \<noteq> [] \<and> hd (Join xs) \<noteq> CHR ''/''"
proof (induction xs rule: Join.induct)
  case 1
  then show ?case by simp
next
  case (2 x)
  then show ?case by (cases x) (auto simp: goodElems_def)
next
  case (3 x y ys)
  then show ?case by (cases x) (auto simp: goodElems_def)
qed

lemma dirPart_split:
  "p = dirPart p @ rev (takeWhile (\<lambda>c. c \<noteq> CHR ''/'') (rev p))"
proof -
  have "rev (takeWhile (\<lambda>c. c \<noteq> CHR ''/'') (rev p) @ dropWhile (\<lambda>c. c \<noteq> CHR ''/'') (rev p)) = p"
    by (simp only: takeWhile_dropWhile_id rev_rev_ident)
  then show ?thesis by (simp only: rev_append dirPart_def)
qed

lemma dirPart_no_slash: "CHR ''/'' \<notin> set p \<Longrightarrow> dirPart p = []"
  by (auto simp: dirPart_def dropWhile_eq_Nil_conv)

lemma dirPart_slash:
  assumes "CHR ''/'' \<in> set p"
  shows "\<exists>t. dirPart p = t @ ''/''"
proof -
  let ?d = "dropWhile (\<lambda>c. c \<noteq> CHR ''/'') (rev p)"
  have ne: "?d \<noteq> []" using assms by (auto simp: dropWhile_eq_Nil_conv)
  then have "hd ?d = CHR ''/''" using hd_dropWhile[of "\<lambda>c. c \<noteq> CHR ''/''" "rev p"] by simp
  with ne have "?d = CHR ''/'' # tl ?d" by (cases ?d) auto
  then have "rev ?d = rev (tl ?d) @ ''/''" by (metis rev.simps(2))
  then show ?thesis by (auto simp: dirPart_def)
qed

lemma dirPart_le: "length (dirPart p) \<le> length p" and dirPart_slashes_le: "slashes (dirPart p) \<le> slashes p"
proof -
  obtain r where "p = dirPart p @ r" using dirPart_split by blast
  then have "length p = length (dirPart p) + length r" "slashes p = slashes (dirPart p) + slashes r"
    by (metis length_append, metis slashes_append)
  then show "length (dirPart p) \<le> length p" "slashes (dirPart p) \<le> slashes p" by simp_all
qed

lemma dirPart_hd: "dirPart p \<noteq> [] \<Longrightarrow> hd (dirPart p) = hd p"
  by (metis dirPart_split hd_append2)

lemma relative_dot: "relative ''.''"
  by (simp add: relative_def)

lemma Clean_Nil: "filepath_Clean [] = ''.''"
  by (simp add: filepath_Clean_def)

lemma Clean_relative_dir:
  assumes "relative q" "q = t @ ''/''"
  shows "relative (filepath_Clean q)
       \<and> (filepath_Clean q = ''.''
          \<or> (slashes (filepath_Clean q) < slashes q \<and> length (filepath_Clean q) < length q))"
proof -
  let ?st = "foldl (cleanStep False) [] (Split q)"
  let ?out = "Join (rev ?st)"
  have nr: "\<not> (hd q = CHR ''/'')" and ne: "q \<noteq> []" using assms(1) by (simp_all add: relative_def)
  have C: "filepath_Clean q = (if ?out = [] then ''.'' else ?out)"
    using nr ne by (simp add: filepath_Clean_def Let_def)
  obtain parts where parts: "Split q = parts @ [[]]"
    using Split_snoc_slash[of t] assms(2) by metis
  have lp: "length parts = slashes q" using length_Split[of q] parts by simp
  have good: "goodElems ?st"
    by (rule foldl_cleanStep_elems) (simp_all add: goodElems_def Split_no_slash)
  have fl: "filter (\<lambda>x. x \<noteq> []) (Split q) = filter (\<lambda>x. x \<noteq> []) parts" using parts by simp
  have "sum_list (map (\<lambda>x. 1) ?st) \<le> sum_list (map (\<lambda>x. 1::nat) (filter (\<lambda>x. x \<noteq> []) (Split q)))"
    using foldl_cleanStep_measure[of "\<lambda>x. 1" False "[]" "Split q"] by simp
  also have "\<dots> = length (filter (\<lambda>x. x \<noteq> []) parts)" by (simp add: fl sum_list_triv)
  also have "\<dots> \<le> slashes q" using lp length_filter_le[of _ parts] by simp
  finally have count: "length ?st \<le> slashes q" by (simp add: sum_list_triv)
  have "sum_list (map (\<lambda>x. Suc (length x)) ?st)
          \<le> sum_list (map (\<lambda>x. Suc (length x)) (filter (\<lambda>x. x \<noteq> []) (Split q)))"
    using foldl_cleanStep_measure[of "\<lambda>x. Suc (length x)" False "[]" "Split q"] by simp
  also have "\<dots> \<le> sum_list (map (\<lambda>x. Suc (length x)) parts)"
    unfolding fl by (rule sum_list_filter_le_nat)
  also have "\<dots> = length q"
    using splitFrom_weight[of "[]" q] parts by (simp add: Split_def)
  finally have weight: "sum_list (map (\<lambda>x. Suc (length x)) ?st) \<le> length q" .
  show ?thesis
  proof (cases "?st = []")
    case True
    then show ?thesis using C by (simp add: relative_dot)
  next
    case False
    then have rne: "rev ?st \<noteq> []" by simp
    have rgood: "goodElems (rev ?st)" using good by (simp add: goodElems_def)
    from hd_Join[OF rne rgood] have o: "?out \<noteq> []" "hd ?out \<noteq> CHR ''/''" by simp_all
    from slashes_Join[OF rne rgood] count have s: "slashes ?out < slashes q" by simp
    have "sum_list (map (\<lambda>x. Suc (length x)) (rev ?st)) = sum_list (map (\<lambda>x. Suc (length x)) ?st)"
      by (simp add: rev_map[symmetric])
    with length_Join[OF rne] weight have l: "length ?out < length q" by simp
    show ?thesis using C o s l by (simp add: relative_def)
  qed
qed

lemma Dir_step:
  assumes "relative p"
  shows "relative (filepath_Dir p)
       \<and> (filepath_Dir p = ''.''
          \<or> (slashes (filepath_Dir p) < slashes p \<and> length (filepath_Dir p) < length p))"
proof (cases "CHR ''/'' \<in> set p")
  case False
  then show ?thesis by (simp add: filepath_Dir_def dirPart_no_slash Clean_Nil relative_dot)
next
  case True
  then obtain t where t: "dirPart p = t @ ''/''" using dirPart_slash by blast
  then have ne: "dirPart p \<noteq> []" by simp
  have rel: "relative (dirPart p)"
    using assms dirPart_hd[OF ne] ne by (simp add: relative_def)
  from Clean_relative_dir[OF rel t] dirPart_le[of p] dirPart_slashes_le[of p]
  show ?thesis by (auto simp: filepath_Dir_def)
qed

lemma findLoop_dot: "findLoop n fs srcRoot ''.'' = Some (Inr [])"
  by (cases n) simp_all

lemma findLoop_total:
  "relative p \<Longrightarrow> slashes p < n \<Longrightarrow> \<exists>r. findLoop n fs srcRoot p = Some r"
proof (induction n arbitrary: p)
  case 0
  then show ?case by simp
next
  case (Suc n)
  from Dir_step[OF Suc.prems(1)]
  have rel: "relative (filepath_Dir p)"
    and st: "filepath_Dir p = ''.'' \<or> slashes (filepath_Dir p) < slashes p" by auto
  have rec: "\<exists>r. findLoop n fs srcRoot (filepath_Dir p) = Some r"
  proof (cases "filepath_Dir p = ''.''")
    case True
    then show ?thesis by (simp add: findLoop_dot)
  next
    case False
    with st Suc.prems(2) have "slashes (filepath_Dir p) < n" by simp
    from Suc.IH[OF rel this] show ?thesis .
  qed
  show ?case using rec by (auto split: sum.splits prod.splits)
qed

text \<open>
  Claim C9: for a package whose import path is relative and not empty, the walk of
  \<open>findLicense\<close> ends within one iteration per path segment, whatever the file system
  holds: each step replaces the path by its parent directory, which is again relative and
  is either \<open>.\<close> or strictly shorter, with fewer segments.
\<close>

theorem findLicense_terminates:
  assumes "relative (ImportPath info)"
  shows "(\<exists>r. findLicense (length (Split (ImportPath info))) fs info = Some r)
       \<and> (\<forall>p. relative p \<longrightarrow>
             relative (filepath_Dir p)
           \<and> (filepath_Dir p = ''.''
              \<or> (length (filepath_Dir p) < length p
                 \<and> length (Split (filepath_Dir p)) < length (Split p))))"
proof -
  have "slashes (ImportPath info) < length (Split (ImportPath info))"
    by (simp add: length_Split)
  from findLoop_total[OF assms this]
  have "\<exists>r. findLicense (length (Split (ImportPath info))) fs info = Some r"
    by (simp add: findLicense_def)
  then show ?thesis using Dir_step by (auto simp: length_Split)
qed

theorem findLicense_terminates_witness:
  "relative (ImportPath examplePkg)
   \<and> length (Split (ImportPath examplePkg)) = 3
   \<and> (\<exists>r. findLicense (length (Split (ImportPath examplePkg))) emptyFS examplePkg = Some r)
   \<and> findLicense 3 emptyFS examplePkg = Some (Inr [])
   \<and> findLicense 2 emptyFS examplePkg = None
   \<and> filepath_Dir ''a/b/c'' = ''a/b'' \<and> filepath_Dir ''a/b'' = ''a'' \<and> filepath_Dir ''a'' = ''.''"
proof -
  have h: "relative (ImportPath examplePkg)" by (simp add: relative_def examplePkg_def)
  have l: "length (Split (ImportPath examplePkg)) = 3" by code_simp
  have e3: "findLicense 3 emptyFS examplePkg = Some (Inr [])" by code_simp
  have e2: "findLicense 2 emptyFS examplePkg = None" by code_simp
  have d: "filepath_Dir ''a/b/c'' = ''a/b'' \<and> filepath_Dir ''a/b'' = ''a'' \<and> filepath_Dir ''a'' = ''.''"
    by code_simp
  from findLicense_terminates[OF h, of emptyFS]
  have "\<exists>r. findLicense (length (Split (ImportPath examplePkg))) emptyFS examplePkg = Some r"
    by blast
  with h l e3 e2 d show ?thesis by blast
qed

section \<open>The nearest directory wins (C4)\<close>

lemma scoreLicenseName_Fin: "\<exists>q. scoreLicenseName name = Fin q"
  by (cases "fullMatch reLicense1 name"; cases "fullMatch reLicense2 name";
      cases "fullMatch reLicense3 name"; cases "fullMatch reLicense4 name";
      simp only: scoreLicenseName_def if_True if_False; blast)

lemma scoreLicenseName_Nil: "scoreLicenseName [] = Fin 0"
  by code_simp

lemma fgt_Fin_le: "fgt a (Fin b) \<Longrightarrow> \<not> fgt (Fin c) (Fin b) \<Longrightarrow> fgt a (Fin c)"
  by (cases a) auto

lemma bestLoop_Cons:
  "bestLoop (fi # fis) (bs, bn) =
     (if IsRegular fi \<and> fgt (scoreLicenseName (Name fi)) bs
      then bestLoop fis (scoreLicenseName (Name fi), Name fi)
      else bestLoop fis (bs, bn))"
  by simp

declare bestLoop.simps(2) [simp del]

lemma bestLoop_inv:
  "(bestLoop fis (Fin b, bn) = (Fin b, bn) \<and>
      (\<forall>fi \<in> set fis. IsRegular fi \<longrightarrow> \<not> fgt (scoreLicenseName (Name fi)) (Fin b)))
 \<or> (\<exists>i < length fis.
        IsRegular (fis ! i)
      \<and> bestLoop fis (Fin b, bn) = (scoreLicenseName (Name (fis ! i)), Name (fis ! i))
      \<and> fgt (scoreLicenseName (Name (fis ! i))) (Fin b)
      \<and> (\<forall>j < length fis. IsRegular (fis ! j) \<longrightarrow>
            \<not> fgt (scoreLicenseName (Name (fis ! j))) (scoreLicenseName (Name (fis ! i))))
      \<and> (\<forall>j < i. IsRegular (fis ! j) \<longrightarrow>
            fgt (scoreLicenseName (Name (fis ! i))) (scoreLicenseName (Name (fis ! j)))))"
proof (induction fis arbitrary: b bn)
  case Nil
  then show ?case by simp
next
  case (Cons fi fis)
  let ?s = "\<lambda>f. scoreLicenseName (Name f)"
  obtain q where q: "?s fi = Fin q" using scoreLicenseName_Fin by blast
  show ?case
  proof (cases "IsRegular fi \<and> fgt (?s fi) (Fin b)")
    case True
    from Cons.IH[of q "Name fi"]
    show ?thesis
    proof (elim disjE conjE exE)
      assume a: "bestLoop fis (Fin q, Name fi) = (Fin q, Name fi)"
        and n: "\<forall>f \<in> set fis. IsRegular f \<longrightarrow> \<not> fgt (?s f) (Fin q)"
      have "\<forall>j < length (fi # fis). IsRegular ((fi # fis) ! j) \<longrightarrow>
              \<not> fgt (?s ((fi # fis) ! j)) (?s fi)"
      proof (intro allI impI)
        fix j assume "j < length (fi # fis)" "IsRegular ((fi # fis) ! j)"
        then show "\<not> fgt (?s ((fi # fis) ! j)) (?s fi)"
          using n q by (cases j) auto
      qed
      then show ?thesis using True a q
        by (intro disjI2 exI[of _ 0]) (simp add: bestLoop_Cons)
    next
      fix i
      assume i: "i < length fis" and r: "IsRegular (fis ! i)"
        and a: "bestLoop fis (Fin q, Name fi) = (?s (fis ! i), Name (fis ! i))"
        and g: "fgt (?s (fis ! i)) (Fin q)"
        and mx: "\<forall>j < length fis. IsRegular (fis ! j) \<longrightarrow> \<not> fgt (?s (fis ! j)) (?s (fis ! i))"
        and fs: "\<forall>j < i. IsRegular (fis ! j) \<longrightarrow> fgt (?s (fis ! i)) (?s (fis ! j))"
      have g': "fgt (?s (fis ! i)) (?s fi)" using g q by simp
      have 1: "\<forall>j < length (fi # fis). IsRegular ((fi # fis) ! j) \<longrightarrow>
                 \<not> fgt (?s ((fi # fis) ! j)) (?s (fis ! i))"
      proof (intro allI impI)
        fix j assume "j < length (fi # fis)" "IsRegular ((fi # fis) ! j)"
        then show "\<not> fgt (?s ((fi # fis) ! j)) (?s (fis ! i))"
          using mx g' fgt_asym by (cases j) auto
      qed
      have 2: "\<forall>j < Suc i. IsRegular ((fi # fis) ! j) \<longrightarrow>
                 fgt (?s (fis ! i)) (?s ((fi # fis) ! j))"
      proof (intro allI impI)
        fix j assume "j < Suc i" "IsRegular ((fi # fis) ! j)"
        then show "fgt (?s (fis ! i)) (?s ((fi # fis) ! j))"
          using fs g' by (cases j) auto
      qed
      have 3: "fgt (?s (fis ! i)) (Fin b)" using fgt_trans[OF g'] True by blast
      show ?thesis using True a i r q 1 2 3
        by (intro disjI2 exI[of _ "Suc i"]) (simp add: bestLoop_Cons)
    qed
  next
    case False
    from Cons.IH[of b bn]
    show ?thesis
    proof (elim disjE conjE exE)
      assume a: "bestLoop fis (Fin b, bn) = (Fin b, bn)"
        and n: "\<forall>f \<in> set fis. IsRegular f \<longrightarrow> \<not> fgt (?s f) (Fin b)"
      then show ?thesis using False by (intro disjI1) (auto simp: bestLoop_Cons)
    next
      fix i
      assume i: "i < length fis" and r: "IsRegular (fis ! i)"
        and a: "bestLoop fis (Fin b, bn) = (?s (fis ! i), Name (fis ! i))"
        and g: "fgt (?s (fis ! i)) (Fin b)"
        and mx: "\<forall>j < length fis. IsRegular (fis ! j) \<longrightarrow> \<not> fgt (?s (fis ! j)) (?s (fis ! i))"
        and fs: "\<forall>j < i. IsRegular (fis ! j) \<longrightarrow> fgt (?s (fis ! i)) (?s (fis ! j))"
      have t0: "IsRegular fi \<longrightarrow> fgt (?s (fis ! i)) (?s fi)"
        using fgt_Fin_le[OF g] False q by auto
      have 1: "\<forall>j < length (fi # fis). IsRegular ((fi # fis) ! j) \<longrightarrow>
                 \<not> fgt (?s ((fi # fis) ! j)) (?s (fis ! i))"
      proof (intro allI impI)
        fix j assume "j < length (fi # fis)" "IsRegular ((fi # fis) ! j)"
        then show "\<not> fgt (?s ((fi # fis) ! j)) (?s (fis ! i))"
          using mx t0 fgt_asym by (cases j) auto
      qed
      have 2: "\<forall>j < Suc i. IsRegular ((fi # fis) ! j) \<longrightarrow>
                 fgt (?s (fis ! i)) (?s ((fi # fis) ! j))"
      proof (intro allI impI)
        fix j assume "j < Suc i" "IsRegular ((fi # fis) ! j)"
        then show "fgt (?s (fis ! i)) (?s ((fi # fis) ! j))"
          using fs t0 by (cases j) auto
      qed
      show ?thesis using False a i r g 1 2
        by (intro disjI2 exI[of _ "Suc i"]) (auto simp: bestLoop_Cons)
    qed
  qed
qed

lemma bestLoop_none:
  assumes "\<not> hasCandidate fis"
  shows "bestLoop fis (Fin 0, []) = (Fin 0, [])"
  using bestLoop_inv[of fis 0 "[]"] assms by (auto simp: hasCandidate_def)

lemma bestLoop_some:
  assumes "hasCandidate fis"
  shows "\<exists>i < length fis.
        IsRegular (fis ! i)
      \<and> bestLoop fis (Fin 0, []) = (scoreLicenseName (Name (fis ! i)), Name (fis ! i))
      \<and> Name (fis ! i) \<noteq> []
      \<and> fgt (scoreLicenseName (Name (fis ! i))) (Fin 0)
      \<and> (\<forall>j < length fis. IsRegular (fis ! j) \<longrightarrow>
            \<not> fgt (scoreLicenseName (Name (fis ! j))) (scoreLicenseName (Name (fis ! i))))
      \<and> (\<forall>j < i. IsRegular (fis ! j) \<longrightarrow>
            fgt (scoreLicenseName (Name (fis ! i))) (scoreLicenseName (Name (fis ! j))))"
proof -
  from assms have "\<not> (\<forall>fi \<in> set fis. IsRegular fi \<longrightarrow> \<not> fgt (scoreLicenseName (Name fi)) (Fin 0))"
    by (auto simp: hasCandidate_def)
  with bestLoop_inv[of fis 0 "[]"] obtain i where i: "i < length fis" "IsRegular (fis ! i)"
      "bestLoop fis (Fin 0, []) = (scoreLicenseName (Name (fis ! i)), Name (fis ! i))"
      "fgt (scoreLicenseName (Name (fis ! i))) (Fin 0)"
      "\<forall>j < length fis. IsRegular (fis ! j) \<longrightarrow>
            \<not> fgt (scoreLicenseName (Name (fis ! j))) (scoreLicenseName (Name (fis ! i)))"
      "\<forall>j < i. IsRegular (fis ! j) \<longrightarrow>
            fgt (scoreLicenseName (Name (fis ! i))) (scoreLicenseName (Name (fis ! j)))"
    by blast
  have "Name (fis ! i) \<noteq> []"
  proof
    assume "Name (fis ! i) = []"
    with i(4) show False by (simp add: scoreLicenseName_Nil)
  qed
  with i show ?thesis by blast
qed

lemma findLoop_skip:
  assumes "p \<noteq> ''.''" "fs (filepath_Join [srcRoot, ''src'', p]) = Inr fis" "\<not> hasCandidate fis"
  shows "findLoop (Suc n) fs srcRoot p = findLoop n fs srcRoot (filepath_Dir p)"
  using assms bestLoop_none[OF assms(3)] by simp

lemma findLoop_hit:
  assumes "p \<noteq> ''.''" "fs (filepath_Join [srcRoot, ''src'', p]) = Inr fis"
    "bestLoop fis (Fin 0, []) = (s, name)" "name \<noteq> []"
  shows "findLoop (Suc n) fs srcRoot p = Some (Inr (filepath_Join [p, name]))"
  using assms by simp

lemma findLoop_walk:
  assumes "\<forall>i < k. (filepath_Dir ^^ i) p \<noteq> ''.''
             \<and> (\<exists>fis. fs (filepath_Join [srcRoot, ''src'', (filepath_Dir ^^ i) p]) = Inr fis
                      \<and> \<not> hasCandidate fis)"
  shows "findLoop (k + n) fs srcRoot p = findLoop n fs srcRoot ((filepath_Dir ^^ k) p)"
  using assms
proof (induction k arbitrary: p)
  case 0
  then show ?case by simp
next
  case (Suc k)
  from Suc.prems[rule_format, of 0] obtain fis where
    0: "p \<noteq> ''.''" "fs (filepath_Join [srcRoot, ''src'', p]) = Inr fis" "\<not> hasCandidate fis"
    by auto
  have rest: "\<forall>i < k. (filepath_Dir ^^ i) (filepath_Dir p) \<noteq> ''.''
             \<and> (\<exists>fis. fs (filepath_Join [srcRoot, ''src'', (filepath_Dir ^^ i) (filepath_Dir p)]) = Inr fis
                      \<and> \<not> hasCandidate fis)"
  proof (intro allI impI)
    fix i assume "i < k"
    then have "Suc i < Suc k" by simp
    from Suc.prems[rule_format, OF this]
    have "(filepath_Dir ^^ Suc i) p \<noteq> ''.''
             \<and> (\<exists>fis. fs (filepath_Join [srcRoot, ''src'', (filepath_Dir ^^ Suc i) p]) = Inr fis
                      \<and> \<not> hasCandidate fis)" .
    moreover have "(filepath_Dir ^^ Suc i) p = (filepath_Dir ^^ i) (filepath_Dir p)"
      by (simp only: funpow_Suc_right o_apply)
    ultimately show "(filepath_Dir ^^ i) (filepath_Dir p) \<noteq> ''.''
             \<and> (\<exists>fis. fs (filepath_Join [srcRoot, ''src'', (filepath_Dir ^^ i) (filepath_Dir p)]) = Inr fis
                      \<and> \<not> hasCandidate fis)"
      by metis
  qed
  have "findLoop (Suc k + n) fs srcRoot p = findLoop (k + n) fs srcRoot (filepath_Dir p)"
    using findLoop_skip[of p fs srcRoot fis "k + n"] 0 by simp
  also have "\<dots> = findLoop n fs srcRoot ((filepath_Dir ^^ k) (filepath_Dir p))"
    by (rule Suc.IH[OF rest])
  also have "(filepath_Dir ^^ k) (filepath_Dir p) = (filepath_Dir ^^ Suc k) p"
    by (simp only: funpow_Suc_right o_apply)
  finally show ?case .
qed

text \<open>
  Claim C4: when the first \<open>k\<close> directories of the walk can be read and hold no regular
  file of positive score, and directory \<open>k\<close> can be read and holds one, \<open>findLicense\<close>
  returns the best file of directory \<open>k\<close> (the first regular file of greatest score),
  whatever the directories farther up hold; when the walk reaches \<open>.\<close> after \<open>k\<close> such
  directories it returns the empty path.
\<close>

theorem findLicense_nearest:
  assumes "\<forall>i < k. ancestor info i \<noteq> ''.''
             \<and> (\<exists>fis. listing fs info i = Inr fis \<and> \<not> hasCandidate fis)"
  shows "(ancestor info k \<noteq> ''.'' \<and> listing fs info k = Inr fis \<and> hasCandidate fis \<longrightarrow>
            (\<exists>j < length fis.
                findLicense (Suc k + n) fs info
                  = Some (Inr (filepath_Join [ancestor info k, Name (fis ! j)]))
              \<and> IsRegular (fis ! j)
              \<and> fgt (scoreLicenseName (Name (fis ! j))) (Fin 0)
              \<and> (\<forall>i < length fis. IsRegular (fis ! i) \<longrightarrow>
                    \<not> fgt (scoreLicenseName (Name (fis ! i))) (scoreLicenseName (Name (fis ! j))))
              \<and> (\<forall>i < j. IsRegular (fis ! i) \<longrightarrow>
                    fgt (scoreLicenseName (Name (fis ! j))) (scoreLicenseName (Name (fis ! i))))))
       \<and> (ancestor info k = ''.'' \<longrightarrow> findLicense (k + n) fs info = Some (Inr []))"
proof -
  let ?p = "ImportPath info"
  have walk: "\<And>m. findLoop (k + m) fs (Root info) ?p
                  = findLoop m fs (Root info) ((filepath_Dir ^^ k) ?p)"
    by (rule findLoop_walk) (use assms in \<open>simp add: ancestor_def listing_def\<close>)
  have A: "ancestor info k = ''.'' \<longrightarrow> findLicense (k + n) fs info = Some (Inr [])"
    using walk[of n] by (simp add: findLicense_def ancestor_def findLoop_dot)
  have B: "ancestor info k \<noteq> ''.'' \<and> listing fs info k = Inr fis \<and> hasCandidate fis \<longrightarrow>
            (\<exists>j < length fis.
                findLicense (Suc k + n) fs info
                  = Some (Inr (filepath_Join [ancestor info k, Name (fis ! j)]))
              \<and> IsRegular (fis ! j)
              \<and> fgt (scoreLicenseName (Name (fis ! j))) (Fin 0)
              \<and> (\<forall>i < length fis. IsRegular (fis ! i) \<longrightarrow>
                    \<not> fgt (scoreLicenseName (Name (fis ! i))) (scoreLicenseName (Name (fis ! j))))
              \<and> (\<forall>i < j. IsRegular (fis ! i) \<longrightarrow>
                    fgt (scoreLicenseName (Name (fis ! j))) (scoreLicenseName (Name (fis ! i)))))"
  proof (intro impI)
    assume h: "ancestor info k \<noteq> ''.'' \<and> listing fs info k = Inr fis \<and> hasCandidate fis"
    from bestLoop_some[of fis] h obtain j where j: "j < length fis" "IsRegular (fis ! j)"
      "bestLoop fis (Fin 0, []) = (scoreLicenseName (Name (fis ! j)), Name (fis ! j))"
      "Name (fis ! j) \<noteq> []"
      "fgt (scoreLicenseName (Name (fis ! j))) (Fin 0)"
      "\<forall>i < length fis. IsRegular (fis ! i) \<longrightarrow>
            \<not> fgt (scoreLicenseName (Name (fis ! i))) (scoreLicenseName (Name (fis ! j)))"
      "\<forall>i < j. IsRegular (fis ! i) \<longrightarrow>
            fgt (scoreLicenseName (Name (fis ! j))) (scoreLicenseName (Name (fis ! i)))"
      by blast
    have "findLoop (Suc n) fs (Root info) (ancestor info k)
            = Some (Inr (filepath_Join [ancestor info k, Name (fis ! j)]))"
      using findLoop_hit[of "ancestor info k" fs "Root info" fis _ "Name (fis ! j)" n] h j(3) j(4)
      by (simp add: listing_def)
    then have "findLicense (Suc k + n) fs info
            = Some (Inr (filepath_Join [ancestor info k, Name (fis ! j)]))"
      using walk[of "Suc n"] by (simp add: findLicense_def ancestor_def)
    with j show "\<exists>j < length fis.
                findLicense (Suc k + n) fs info
                  = Some (Inr (filepath_Join [ancestor info k, Name (fis ! j)]))
              \<and> IsRegular (fis ! j)
              \<and> fgt (scoreLicenseName (Name (fis ! j))) (Fin 0)
              \<and> (\<forall>i < length fis. IsRegular (fis ! i) \<longrightarrow>
                    \<not> fgt (scoreLicenseName (Name (fis ! i))) (scoreLicenseName (Name (fis ! j))))
              \<and> (\<forall>i < j. IsRegular (fis ! i) \<longrightarrow>
                    fgt (scoreLicenseName (Name (fis ! j))) (scoreLicenseName (Name (fis ! i))))"
      by blast
  qed
  from A B show ?thesis by blast
qed

lemma score_examples:
  "scoreLicenseName ''c.go'' = Fin 0" "scoreLicenseName ''b.go'' = Fin 0"
  "scoreLicenseName ''COPYING'' = Fin (8 / 10)" "scoreLicenseName ''LICENSE'' = Fin 1"
  by code_simp+

lemma example_listings:
  "ancestor examplePkg 0 = ''a/b/c''" "ancestor examplePkg (Suc 0) = ''a/b''"
  "ancestor examplePkg 2 = ''a''"
  "listing exampleFS examplePkg 0 = Inr [regular ''c.go'', \<lparr>Name = ''LICENSE'', IsRegular = False\<rparr>]"
  "listing exampleFS examplePkg (Suc 0) = Inr [regular ''COPYING'', regular ''b.go'']"
  "listing exampleFS examplePkg 2 = Inr [regular ''LICENSE'', regular ''a.go'']"
  by code_simp+

text \<open>
  The package directory holds no candidate (its \<open>LICENSE\<close> is not a regular file), the
  parent holds \<open>COPYING\<close> and the grandparent \<open>LICENSE\<close>, which scores higher.
\<close>

theorem findLicense_nearest_witness:
  "ancestor examplePkg 0 = ''a/b/c''
   \<and> listing exampleFS examplePkg 0 = Inr [regular ''c.go'', \<lparr>Name = ''LICENSE'', IsRegular = False\<rparr>]
   \<and> \<not> hasCandidate [regular ''c.go'', \<lparr>Name = ''LICENSE'', IsRegular = False\<rparr>]
   \<and> ancestor examplePkg 1 = ''a/b''
   \<and> listing exampleFS examplePkg 1 = Inr [regular ''COPYING'', regular ''b.go'']
   \<and> hasCandidate [regular ''COPYING'', regular ''b.go'']
   \<and> scoreLicenseName ''COPYING'' = Fin (8 / 10)
   \<and> listing exampleFS examplePkg 2 = Inr [regular ''LICENSE'', regular ''a.go'']
   \<and> scoreLicenseName ''LICENSE'' = Fin 1
   \<and> findLicense 2 exampleFS examplePkg = Some (Inr ''a/b/COPYING'')"
proof -
  let ?fis = "[regular ''COPYING'', regular ''b.go'']"
  have nc: "\<not> hasCandidate [regular ''c.go'', \<lparr>Name = ''LICENSE'', IsRegular = False\<rparr>]"
    by (simp add: hasCandidate_def regular_def score_examples)
  have hc: "hasCandidate ?fis"
    by (simp add: hasCandidate_def regular_def score_examples)
  have skip: "\<forall>i < 1. ancestor examplePkg i \<noteq> ''.''
             \<and> (\<exists>fis. listing exampleFS examplePkg i = Inr fis \<and> \<not> hasCandidate fis)"
    using nc by (simp add: example_listings)
  have k: "ancestor examplePkg 1 \<noteq> ''.'' \<and> listing exampleFS examplePkg 1 = Inr ?fis \<and> hasCandidate ?fis"
    using hc by (simp add: example_listings)
  from findLicense_nearest[OF skip, of ?fis 0] k
  obtain j where j: "j < length ?fis"
    "findLicense (Suc 1 + 0) exampleFS examplePkg
        = Some (Inr (filepath_Join [ancestor examplePkg 1, Name (?fis ! j)]))"
    "fgt (scoreLicenseName (Name (?fis ! j))) (Fin 0)"
    by blast
  have "j = 0"
  proof (rule ccontr)
    assume "j \<noteq> 0"
    with j(1) have "j = 1" by simp
    with j(3) show False by (simp add: regular_def score_examples)
  qed
  moreover have "filepath_Join [''a/b'', ''COPYING''] = ''a/b/COPYING''" by code_simp
  ultimately have "findLicense 2 exampleFS examplePkg = Some (Inr ''a/b/COPYING'')"
    using j(2) by (simp add: example_listings regular_def numeral_2_eq_2)
  with nc hc show ?thesis by (simp add: example_listings score_examples)
qed

section \<open>Grouping (C3)\<close>

text \<open>The example of the specification: three packages below \<open>a\<close> share one file.\<close>

lemma group_siblings:
  "groupLicenses [row ''a/x'' ''a/LICENSE'', row ''a/y'' ''a/LICENSE'', row ''a/z'' ''a/LICENSE'']
     = Inr [row ''a'' ''a/LICENSE'']"
  by code_simp

lemma group_unrelated:
  "groupLicenses [row ''a/x'' ''LICENSE'', row ''b/y'' ''LICENSE''] = Inl ErrNoCommonPrefix"
  by code_simp

text \<open>
  Claim C3 says that the identifier of a merged row is the deepest common prefix of the
  rows' import paths, hence a prefix of each. When a package shares the license file of
  the only package below it, the walk down the tree does not stop at the node where
  the shorter path ends: the identifier is the longer path, which is not a prefix of the
  shorter one.
\<close>

theorem group_nested:
  "longestCommonPrefix [row ''x/lib'' ''x/lib/LICENSE'', row ''x/lib/sub'' ''x/lib/LICENSE'']
     = ''x/lib/sub''
   \<and> groupLicenses [row ''x/lib'' ''x/lib/LICENSE'', row ''x/lib/sub'' ''x/lib/LICENSE'']
     = Inr [row ''x/lib/sub'' ''x/lib/LICENSE'']
   \<and> \<not> prefix (Split ''x/lib/sub'') (Split ''x/lib'')
   \<and> prefix (Split ''x/lib'') (Split ''x/lib'') \<and> prefix (Split ''x/lib'') (Split ''x/lib/sub'')"
  by code_simp

end
